theory Spec2Isabelle
  imports Complex_Main
begin

section \<open>The playback-session controller of VideoStreamPlayer.tsx\<close>

text \<open>
  The component registers handlers on a JW Player instance. The handlers share the
  variables declared in \<^verbatim>\<open>createPlayer\<close> and run to completion one after the
  other on a single thread. The embedding keeps those variables in one record,
  passes it through every handler, and returns the commands and remote calls a
  handler issues as a list of effects, in the order of the source. A diagnostic
  \<^verbatim>\<open>log(...)\<close> is the effect \<open>Log\<close> with its message; the values logged
  after the message are left out.

  JavaScript numbers that hold media positions are modelled as \<^typ>\<open>real\<close>
  (only their comparisons matter here; \<^verbatim>\<open>NaN\<close> and the infinities are outside
  the model), playlist indices and \<^verbatim>\<open>Date.now()\<close> readings as \<^typ>\<open>int\<close>.
\<close>

subsection \<open>Data\<close>

text \<open>A subtitle track (\<^verbatim>\<open>file\<close> is a keyword of Isabelle, hence the prefix).\<close>

record SubtitleFile =
  track_file :: string
  track_label :: string

record Video =
  sources :: "string list"
  guid :: string
  title :: string
  tracks :: "SubtitleFile list"
  external_id :: string
  latest_media_location :: "real option"
  content_length :: "real option"

text \<open>The item configuration the player hands back from \<^verbatim>\<open>getPlaylistItem()\<close>.\<close>

record PlaylistItem =
  item_sources :: "string list"
  item_tracks :: "SubtitleFile list"
  item_title :: string

text \<open>The properties of the component that the handlers read.\<close>

record props =
  index_to_play :: int
  url_redirect_id :: string
  purchase_id :: "string option"

text \<open>
  What the player answers while one handler runs: its getters, and whether a
  \<^verbatim>\<open>seek\<close> command issued now throws. The source guards one call of
  \<^verbatim>\<open>player.seek\<close> with \<^verbatim>\<open>try/catch\<close>, so \<^verbatim>\<open>seek\<close> is the command
  that may fail; the player decides, not the component.
\<close>

record jwplayer =
  getPlaylistIndex :: int
  getDuration :: real
  getPlaylistItem :: PlaylistItem
  seekThrows :: bool

text \<open>The two closures the source hands to \<^verbatim>\<open>setTimeout\<close>.\<close>

datatype callback = StallCheck | SeekAfterReload real

text \<open>
  The variables of \<^verbatim>\<open>createPlayer\<close>, followed by what the runtime holds for the
  component: the pending timers (handle, delay, closure), the next fresh handle, and
  the \<^verbatim>\<open>resumeAt\<close> values captured by the listeners registered with
  \<^verbatim>\<open>player.once("playlistItem", ...)\<close>, oldest first.
\<close>

record session =
  playlist :: "Video list"
  lastPlayedId :: "int option"
  isInitialSeekDone :: bool
  lastKnownPosition :: real
  lastKnownDuration :: real
  isBuffering :: bool
  bufferingStartedAt :: int
  consecutiveReloadAttempts :: nat
  bufferStallCheckTimeout :: "nat option"
  timers :: "(nat \<times> int \<times> callback) list"
  nextTimer :: nat
  playlistItemOnce :: "real list"

datatype effect =
    Log string
  | PlaylistItemCmd int
  | LoadCmd "PlaylistItem list"
  | PlayCmd bool
  | SeekCmd real
  | ThrottledTrack real
  | ThrottledCancel
  | TrackMediaLocationChanged string string string real
  | CreateConsumptionEvent string string string "string option"

text \<open>Whether a handler returned or let an exception escape to the event loop.\<close>

datatype outcome = Returned | Thrown

datatype event =
    OnReady
  | OnSeek real
  | OnTime real real
  | OnComplete
  | OnPlay
  | OnBuffer
  | OnIdle
  | OnError
  | OnVisualQuality
  | OnPlaylistItem
  | TimerFired nat
  | ThrottleInvoke real

subsection \<open>Constants\<close>

definition LOCATION_TRACK_EVENT_DELAY_MS :: int where
  "LOCATION_TRACK_EVENT_DELAY_MS = 10000"

definition MAX_RELOAD_ATTEMPTS :: nat where
  "MAX_RELOAD_ATTEMPTS = 3"

definition BUFFER_STALL_MS :: int where
  "BUFFER_STALL_MS = 5000"

subsection \<open>Runtime: array lookup, timers, player commands\<close>

text \<open>\<^verbatim>\<open>playlist[i]\<close>: \<^verbatim>\<open>undefined\<close> outside the array.\<close>

definition item_at :: "Video list \<Rightarrow> int \<Rightarrow> Video option" where
  "item_at vs i = (if 0 \<le> i \<and> i < int (length vs) then Some (vs ! nat i) else None)"

text \<open>
  \<^verbatim>\<open>setTimeout\<close> returns a fresh handle and leaves the timer pending. A handle is
  never falsy (a \<^verbatim>\<open>Timeout\<close> object, or a positive integer in a browser), so the
  source's truthiness test of a handle is the test against \<^verbatim>\<open>null\<close>.
\<close>

definition setTimeout :: "callback \<Rightarrow> int \<Rightarrow> session \<Rightarrow> nat \<times> session" where
  "setTimeout cb delay s =
     (nextTimer s,
      s\<lparr>timers := timers s @ [(nextTimer s, delay, cb)], nextTimer := Suc (nextTimer s)\<rparr>)"

definition clearTimeout :: "nat \<Rightarrow> session \<Rightarrow> session" where
  "clearTimeout h s = s\<lparr>timers := filter (\<lambda>t. fst t \<noteq> h) (timers s)\<rparr>"

text \<open>\<^verbatim>\<open>player.seek(position)\<close>: the command is issued; the player may throw.\<close>

definition player_seek :: "jwplayer \<Rightarrow> real \<Rightarrow> outcome \<times> effect list" where
  "player_seek p position = (if seekThrows p then Thrown else Returned, [SeekCmd position])"

subsection \<open>The functions of the component\<close>

definition reloadAndResume :: "jwplayer \<Rightarrow> session \<Rightarrow> session \<times> effect list" where
  "reloadAndResume p s =
     (if consecutiveReloadAttempts s \<ge> MAX_RELOAD_ATTEMPTS
      then (s, [Log ''Max reload attempts reached, stopping recovery''])
      else
        let s1 = s\<lparr>consecutiveReloadAttempts := consecutiveReloadAttempts s + 1\<rparr>;
            resumeAt = (if lastKnownPosition s1 = 0 then 0 else lastKnownPosition s1);
            currentItem = getPlaylistItem p
        in (s1\<lparr>playlistItemOnce := playlistItemOnce s1 @ [resumeAt]\<rparr>,
            [ThrottledCancel, Log ''Reloading item to recover. attempt='', LoadCmd [currentItem]]))"

text \<open>The listener registered by \<^verbatim>\<open>reloadAndResume\<close>, for one captured \<^verbatim>\<open>resumeAt\<close>.\<close>

definition resumeAfterReload :: "real \<Rightarrow> session \<Rightarrow> session \<times> effect list" where
  "resumeAfterReload resumeAt s =
     (if resumeAt > 0
      then (snd (setTimeout (SeekAfterReload resumeAt) 250 s), [PlayCmd True])
      else (s, [PlayCmd True]))"

text \<open>The closure of the settle delay: \<^verbatim>\<open>try { player.seek(resumeAt) } catch { log }\<close>.\<close>

definition seekAfterReload :: "jwplayer \<Rightarrow> real \<Rightarrow> session \<Rightarrow> outcome \<times> session \<times> effect list" where
  "seekAfterReload p resumeAt s =
     (case player_seek p resumeAt of
        (Returned, e) \<Rightarrow> (Returned, s, e @ [Log ''Sought to''])
      | (Thrown, e) \<Rightarrow> (Returned, s, e @ [Log ''Seek failed after reload'']))"

definition updateLocalMediaLocation :: "jwplayer \<Rightarrow> real \<Rightarrow> real \<Rightarrow> session \<Rightarrow> session" where
  "updateLocalMediaLocation p position duration s =
     (case item_at (playlist s) (getPlaylistIndex p) of
        None \<Rightarrow> s
      | Some videoFile \<Rightarrow>
          if isInitialSeekDone s \<and> lastPlayedId s = Some (getPlaylistIndex p)
          then
            let location = (if position = duration then 0 else position)
            in s\<lparr>playlist := (playlist s)
                   [nat (getPlaylistIndex p) := videoFile\<lparr>latest_media_location := Some location\<rparr>]\<rparr>
          else s)"

definition trackMediaLocation :: "props \<Rightarrow> jwplayer \<Rightarrow> real \<Rightarrow> session \<Rightarrow> effect list" where
  "trackMediaLocation pr p position s =
     (case purchase_id pr of
        None \<Rightarrow> []
      | Some pid \<Rightarrow>
          (case item_at (playlist s) (getPlaylistIndex p) of
             None \<Rightarrow> []
           | Some videoFile \<Rightarrow>
               [TrackMediaLocationChanged (url_redirect_id pr) (external_id videoFile) pid
                  (case content_length videoFile of
                     Some len \<Rightarrow> if position > len then len else position
                   | None \<Rightarrow> position)]))"

subsection \<open>The event handlers\<close>

definition onReady :: "props \<Rightarrow> session \<Rightarrow> session \<times> effect list" where
  "onReady pr s = (s, [PlaylistItemCmd (index_to_play pr)])"

definition onSeek :: "props \<Rightarrow> jwplayer \<Rightarrow> real \<Rightarrow> session \<Rightarrow> session \<times> effect list" where
  "onSeek pr p offset s =
     (let e = trackMediaLocation pr p offset s;
          s1 = updateLocalMediaLocation p offset (getDuration p) s
      in (s1\<lparr>lastKnownPosition := offset\<rparr>, e))"

definition onTime :: "jwplayer \<Rightarrow> real \<Rightarrow> real \<Rightarrow> session \<Rightarrow> session \<times> effect list" where
  "onTime p position duration s =
     (let s1 = updateLocalMediaLocation p position duration s;
          s2 = s1\<lparr>lastKnownPosition := position, lastKnownDuration := duration,
                  isBuffering := False, bufferingStartedAt := 0,
                  consecutiveReloadAttempts := 0\<rparr>;
          s3 = (case bufferStallCheckTimeout s2 of
                  Some h \<Rightarrow> (clearTimeout h s2)\<lparr>bufferStallCheckTimeout := None\<rparr>
                | None \<Rightarrow> s2)
      in (s3, [ThrottledTrack position]))"

definition onComplete :: "props \<Rightarrow> jwplayer \<Rightarrow> session \<Rightarrow> session \<times> effect list" where
  "onComplete pr p s =
     (case item_at (playlist s) (getPlaylistIndex p) of
        None \<Rightarrow> (s, [ThrottledCancel])
      | Some videoFile \<Rightarrow>
          let e = trackMediaLocation pr p
                    (case content_length videoFile of None \<Rightarrow> getDuration p | Some len \<Rightarrow> len) s
          in (updateLocalMediaLocation p (getDuration p) (getDuration p) s, ThrottledCancel # e))"

definition onPlay :: "props \<Rightarrow> jwplayer \<Rightarrow> session \<Rightarrow> session \<times> effect list" where
  "onPlay pr p s =
     (let itemId = getPlaylistIndex p
      in case item_at (playlist s) itemId of
           None \<Rightarrow> (s, [])
         | Some videoFile \<Rightarrow>
             if lastPlayedId s \<noteq> Some itemId
             then (s\<lparr>lastPlayedId := Some itemId, isInitialSeekDone := False\<rparr>,
                   [CreateConsumptionEvent ''watch'' (url_redirect_id pr) (external_id videoFile)
                      (purchase_id pr)])
             else (s, []))"

text \<open>The closure armed by the \<^verbatim>\<open>buffer\<close> handler; \<open>now\<close> is \<^verbatim>\<open>Date.now()\<close>.\<close>

definition bufferStallCheck :: "jwplayer \<Rightarrow> int \<Rightarrow> session \<Rightarrow> session \<times> effect list" where
  "bufferStallCheck p now s =
     (let (s1, e) =
            (if isBuffering s \<and> now - bufferingStartedAt s \<ge> BUFFER_STALL_MS
             then (let (s', e') = reloadAndResume p s
                   in (s', Log ''buffer stall detected, attempting reload'' # e'))
             else (s, []))
      in (s1\<lparr>bufferStallCheckTimeout := None\<rparr>, e))"

definition onBuffer :: "int \<Rightarrow> session \<Rightarrow> session \<times> effect list" where
  "onBuffer now s =
     (let s1 = s\<lparr>isBuffering := True, bufferingStartedAt := now\<rparr>;
          s2 = (case bufferStallCheckTimeout s1 of
                  Some h \<Rightarrow> clearTimeout h s1
                | None \<Rightarrow> s1);
          (h, s3) = setTimeout StallCheck (BUFFER_STALL_MS + 50) s2
      in (s3\<lparr>bufferStallCheckTimeout := Some h\<rparr>, [Log ''buffer'']))"

definition onIdle :: "jwplayer \<Rightarrow> session \<Rightarrow> session \<times> effect list" where
  "onIdle p s =
     (if lastKnownDuration s > 0 \<and> lastKnownPosition s < lastKnownDuration s - 1
      then (let (s', e) = reloadAndResume p s
            in (s', [Log ''idle at'', Log ''unexpected idle before end, attempting reload''] @ e))
      else (s, [Log ''idle at'']))"

definition onError :: "jwplayer \<Rightarrow> session \<Rightarrow> session \<times> effect list" where
  "onError p s = (let (s', e) = reloadAndResume p s in (s', Log ''error'' # e))"

definition onVisualQuality :: "jwplayer \<Rightarrow> session \<Rightarrow> outcome \<times> session \<times> effect list" where
  "onVisualQuality p s =
     (if isInitialSeekDone s \<and> lastPlayedId s = Some (getPlaylistIndex p)
      then (Returned, s, [])
      else
        let done = s\<lparr>isInitialSeekDone := True\<rparr>
        in case item_at (playlist s) (getPlaylistIndex p) of
             None \<Rightarrow> (Returned, done, [])
           | Some videoFile \<Rightarrow>
               (case latest_media_location videoFile of
                  None \<Rightarrow> (Returned, done, [])
                | Some location \<Rightarrow>
                    if Some location \<noteq> content_length videoFile
                    then (case player_seek p location of
                            (Thrown, e) \<Rightarrow> (Thrown, s, e)
                          | (Returned, e) \<Rightarrow> (Returned, done, e))
                    else (Returned, done, [])))"

text \<open>
  The \<^verbatim>\<open>playlistItem\<close> signal runs every listener registered with \<^verbatim>\<open>once\<close>, in
  the order of registration, and drops them.
\<close>

fun runListeners :: "real list \<Rightarrow> session \<Rightarrow> session \<times> effect list" where
  "runListeners [] s = (s, [])"
| "runListeners (r # rs) s =
     (let (s1, e1) = resumeAfterReload r s;
          (s2, e2) = runListeners rs s1
      in (s2, e1 @ e2))"

definition onPlaylistItem :: "session \<Rightarrow> session \<times> effect list" where
  "onPlaylistItem s = runListeners (playlistItemOnce s) (s\<lparr>playlistItemOnce := []\<rparr>)"

text \<open>
  A timer fires at most once: firing takes it out of the pending timers and runs its
  closure. A handle that is not pending (cleared, or fired before) runs nothing.
\<close>

definition fireTimer :: "jwplayer \<Rightarrow> int \<Rightarrow> nat \<Rightarrow> session \<Rightarrow> outcome \<times> session \<times> effect list" where
  "fireTimer p now h s =
     (case map_of (timers s) h of
        None \<Rightarrow> (Returned, s, [])
      | Some (delay, cb) \<Rightarrow>
          let s0 = clearTimeout h s
          in (case cb of
                StallCheck \<Rightarrow> (let (s1, e) = bufferStallCheck p now s0 in (Returned, s1, e))
              | SeekAfterReload resumeAt \<Rightarrow> seekAfterReload p resumeAt s0))"

subsection \<open>The event loop\<close>

text \<open>
  \<open>ThrottleInvoke position\<close> is the throttling wrapper calling
  \<^verbatim>\<open>trackMediaLocation(position)\<close>; when it does so is the wrapper's business.
\<close>

definition dispatch ::
  "props \<Rightarrow> jwplayer \<Rightarrow> int \<Rightarrow> event \<Rightarrow> session \<Rightarrow> outcome \<times> session \<times> effect list" where
  "dispatch pr p now ev s =
     (case ev of
        OnReady \<Rightarrow> (Returned, onReady pr s)
      | OnSeek offset \<Rightarrow> (Returned, onSeek pr p offset s)
      | OnTime position duration \<Rightarrow> (Returned, onTime p position duration s)
      | OnComplete \<Rightarrow> (Returned, onComplete pr p s)
      | OnPlay \<Rightarrow> (Returned, onPlay pr p s)
      | OnBuffer \<Rightarrow> (Returned, onBuffer now s)
      | OnIdle \<Rightarrow> (Returned, onIdle p s)
      | OnError \<Rightarrow> (Returned, onError p s)
      | OnVisualQuality \<Rightarrow> onVisualQuality p s
      | OnPlaylistItem \<Rightarrow> (Returned, onPlaylistItem s)
      | TimerFired h \<Rightarrow> fireTimer p now h s
      | ThrottleInvoke position \<Rightarrow> (Returned, s, trackMediaLocation pr p position s))"

text \<open>
  One occurrence of an event: what the player answers during it, the clock reading,
  the event. An exception that escapes a handler does not stop the loop.
\<close>

type_synonym occurrence = "jwplayer \<times> int \<times> event"

fun run :: "props \<Rightarrow> occurrence list \<Rightarrow> session \<Rightarrow> session \<times> effect list" where
  "run pr [] s = (s, [])"
| "run pr ((p, now, ev) # rest) s =
     (let (out, s1, e1) = dispatch pr p now ev s;
          (s2, e2) = run pr rest s1
      in (s2, e1 @ e2))"

text \<open>The variables as \<^verbatim>\<open>createPlayer\<close> initialises them.\<close>

definition initial :: "Video list \<Rightarrow> session" where
  "initial initialPlaylist =
     \<lparr>playlist = initialPlaylist, lastPlayedId = None, isInitialSeekDone = False,
      lastKnownPosition = 0, lastKnownDuration = 0, isBuffering = False,
      bufferingStartedAt = 0, consecutiveReloadAttempts = 0,
      bufferStallCheckTimeout = None, timers = [], nextTimer = 1,
      playlistItemOnce = []\<rparr>"

subsection \<open>Notions used to state the properties\<close>

text \<open>The stall-detection timers that are pending.\<close>

definition liveStallTimers :: "session \<Rightarrow> (nat \<times> int \<times> callback) list" where
  "liveStallTimers s = filter (\<lambda>t. snd (snd t) = StallCheck) (timers s)"

text \<open>Kinds of effects: commands to the player, reloads, position reports, watch events.\<close>

fun isPlayerCommand :: "effect \<Rightarrow> bool" where
  "isPlayerCommand (PlaylistItemCmd i) = True"
| "isPlayerCommand (LoadCmd items) = True"
| "isPlayerCommand (PlayCmd b) = True"
| "isPlayerCommand (SeekCmd x) = True"
| "isPlayerCommand e = False"

fun isLoad :: "effect \<Rightarrow> bool" where
  "isLoad (LoadCmd items) = True"
| "isLoad e = False"

fun isReport :: "effect \<Rightarrow> bool" where
  "isReport (TrackMediaLocationChanged u f pid x) = True"
| "isReport e = False"

fun isWatch :: "effect \<Rightarrow> bool" where
  "isWatch (CreateConsumptionEvent t u f pid) = True"
| "isWatch e = False"

text \<open>The number of recovery attempts among the effects: one \<^verbatim>\<open>player.load\<close> each.\<close>

definition reloads :: "effect list \<Rightarrow> nat" where
  "reloads es = length (filter isLoad es)"

text \<open>The forward-progress signal.\<close>

fun isTime :: "event \<Rightarrow> bool" where
  "isTime (OnTime position duration) = True"
| "isTime ev = False"

text \<open>
  The events that leave an arm of the watchdog standing, \<open>h\<close> being the handle of its
  timer: every event but a \<^verbatim>\<open>time\<close> event (buffering cleared), a \<^verbatim>\<open>buffer\<close>
  event (a new arm) and the firing of the timer itself.
\<close>

fun uninterrupted :: "nat \<Rightarrow> event \<Rightarrow> bool" where
  "uninterrupted h (OnTime position duration) = False"
| "uninterrupted h OnBuffer = False"
| "uninterrupted h (TimerFired h') = (h' \<noteq> h)"
| "uninterrupted h ev = True"

text \<open>
  The watchdog as the \<^verbatim>\<open>buffer\<close> handler leaves it at clock reading \<open>t0\<close>:
  buffering since \<open>t0\<close>, the handle \<open>h\<close> stored, its timer pending.
\<close>

definition armed :: "nat \<Rightarrow> int \<Rightarrow> session \<Rightarrow> bool" where
  "armed h t0 s \<longleftrightarrow>
     bufferStallCheckTimeout s = Some h \<and> isBuffering s \<and> bufferingStartedAt s = t0
   \<and> map_of (timers s) h = Some (BUFFER_STALL_MS + 50, StallCheck)"

text \<open>
  What every handler preserves: the retry budget is respected, timer handles are distinct
  and older than the next fresh one, and a pending stall-detection timer is the one whose
  handle \<^verbatim>\<open>bufferStallCheckTimeout\<close> holds.
\<close>

definition session_inv :: "session \<Rightarrow> bool" where
  "session_inv s \<longleftrightarrow>
     consecutiveReloadAttempts s \<le> MAX_RELOAD_ATTEMPTS
   \<and> distinct (map fst (timers s))
   \<and> (\<forall>t \<in> set (timers s). fst t < nextTimer s)
   \<and> (\<forall>t \<in> set (liveStallTimers s). bufferStallCheckTimeout s = Some (fst t))"

text \<open>
  The items that \<^verbatim>\<open>play\<close> events start, in order: the player's index at each
  \<^verbatim>\<open>play\<close> event, when it is inside a playlist of \<open>n\<close> items.
\<close>

fun playedItems :: "nat \<Rightarrow> occurrence list \<Rightarrow> int list" where
  "playedItems n [] = []"
| "playedItems n ((p, now, ev) # rest) =
     (if ev = OnPlay \<and> 0 \<le> getPlaylistIndex p \<and> getPlaylistIndex p < int n
      then getPlaylistIndex p # playedItems n rest
      else playedItems n rest)"

text \<open>
  The activations among them, given the item played last: an item is activated when it
  differs from the one played before it.
\<close>

fun activations :: "int option \<Rightarrow> int list \<Rightarrow> int list" where
  "activations prev [] = []"
| "activations prev (i # rest) =
     (if prev = Some i then activations prev rest else i # activations (Some i) rest)"

definition watchEvent :: "props \<Rightarrow> string list \<Rightarrow> int \<Rightarrow> effect" where
  "watchEvent pr ids i =
     CreateConsumptionEvent ''watch'' (url_redirect_id pr) (ids ! nat i) (purchase_id pr)"

text \<open>
  The timers the \<^verbatim>\<open>playlistItem\<close> listeners arm, from the handle \<open>n\<close> on: one
  settle-delay timer of 250 ms for each captured \<^verbatim>\<open>resumeAt\<close>.
\<close>

fun seekTimers :: "nat \<Rightarrow> real list \<Rightarrow> (nat \<times> int \<times> callback) list" where
  "seekTimers n [] = []"
| "seekTimers n (r # rs) = (n, 250, SeekAfterReload r) # seekTimers (Suc n) rs"

subsection \<open>The throttling wrapper\<close>

text \<open>
  \<^verbatim>\<open>throttledTrackMediaLocation\<close> is
  \<^verbatim>\<open>throttle(trackMediaLocation, LOCATION_TRACK_EVENT_DELAY_MS)\<close>, with
  \<^verbatim>\<open>throttle\<close> imported from lodash. The library is not among the sources of the
  component; the definitions of this subsection follow its \<^verbatim>\<open>debounce\<close> (lodash 4.17),
  which \<^verbatim>\<open>throttle(func, wait)\<close> calls with its default options
  \<^verbatim>\<open>leading = true\<close>, \<^verbatim>\<open>trailing = true\<close> and \<^verbatim>\<open>maxWait = wait\<close>. They keep
  the names of the library. The wrapper holds at most one timer, whose handle is
  \<^verbatim>\<open>timerId\<close>; the model keeps in \<open>timerId\<close> the delay the pending timer was armed
  for. An invocation of the wrapped function is recorded with the argument it receives.
\<close>

record throttled =
  lastArgs :: "real option"
  timerId :: "int option"
  lastCallTime :: "int option"
  lastInvokeTime :: int

definition invokeFunc :: "int \<Rightarrow> throttled \<Rightarrow> throttled \<times> real option list" where
  "invokeFunc time th = (th\<lparr>lastArgs := None, lastInvokeTime := time\<rparr>, [lastArgs th])"

definition leadingEdge :: "int \<Rightarrow> throttled \<Rightarrow> throttled \<times> real option list" where
  "leadingEdge time th =
     invokeFunc time
       (th\<lparr>lastInvokeTime := time, timerId := Some LOCATION_TRACK_EVENT_DELAY_MS\<rparr>)"

definition shouldInvoke :: "int \<Rightarrow> throttled \<Rightarrow> bool" where
  "shouldInvoke time th =
     (case lastCallTime th of
        None \<Rightarrow> True
      | Some lastCall \<Rightarrow>
          time - lastCall \<ge> LOCATION_TRACK_EVENT_DELAY_MS \<or> time - lastCall < 0
          \<or> time - lastInvokeTime th \<ge> LOCATION_TRACK_EVENT_DELAY_MS)"

definition remainingWait :: "int \<Rightarrow> int \<Rightarrow> throttled \<Rightarrow> int" where
  "remainingWait time lastCall th =
     min (LOCATION_TRACK_EVENT_DELAY_MS - (time - lastCall))
         (LOCATION_TRACK_EVENT_DELAY_MS - (time - lastInvokeTime th))"

definition trailingEdge :: "int \<Rightarrow> throttled \<Rightarrow> throttled \<times> real option list" where
  "trailingEdge time th =
     (let th1 = th\<lparr>timerId := None\<rparr>
      in case lastArgs th1 of
           Some args \<Rightarrow> invokeFunc time th1
         | None \<Rightarrow> (th1\<lparr>lastArgs := None\<rparr>, []))"

text \<open>
  The timer's closure; \<open>time\<close> is \<^verbatim>\<open>Date.now()\<close>. With no timer pending nothing
  runs. (\<^verbatim>\<open>shouldInvoke\<close> is false only when \<^verbatim>\<open>lastCallTime\<close> is defined.)
\<close>

definition timerExpired :: "int \<Rightarrow> throttled \<Rightarrow> throttled \<times> real option list" where
  "timerExpired time th =
     (case timerId th of
        None \<Rightarrow> (th, [])
      | Some delay \<Rightarrow>
          if shouldInvoke time th then trailingEdge time th
          else (case lastCallTime th of
                  Some lastCall \<Rightarrow> (th\<lparr>timerId := Some (remainingWait time lastCall th)\<rparr>, [])
                | None \<Rightarrow> (th, [])))"

text \<open>The wrapper itself, called with one position at clock reading \<open>time\<close>.\<close>

definition debounced :: "int \<Rightarrow> real \<Rightarrow> throttled \<Rightarrow> throttled \<times> real option list" where
  "debounced time position th =
     (let isInvoking = shouldInvoke time th;
          th1 = th\<lparr>lastArgs := Some position, lastCallTime := Some time\<rparr>
      in if isInvoking
         then (if timerId th1 = None then leadingEdge time th1
               else invokeFunc time (th1\<lparr>timerId := Some LOCATION_TRACK_EVENT_DELAY_MS\<rparr>))
         else if timerId th1 = None
              then (th1\<lparr>timerId := Some LOCATION_TRACK_EVENT_DELAY_MS\<rparr>, [])
              else (th1, []))"

definition cancel :: "throttled \<Rightarrow> throttled" where
  "cancel th = th\<lparr>lastInvokeTime := 0, lastArgs := None, lastCallTime := None, timerId := None\<rparr>"

definition new_throttled :: throttled where
  "new_throttled = \<lparr>lastArgs = None, timerId = None, lastCallTime = None, lastInvokeTime = 0\<rparr>"

text \<open>What happens to the wrapper: a call, a cancel, its timer expiring.\<close>

datatype wrapper_event = Called int real | Cancelled | Expired int

fun wrapper_step :: "wrapper_event \<Rightarrow> throttled \<Rightarrow> throttled \<times> real option list" where
  "wrapper_step (Called time position) th = debounced time position th"
| "wrapper_step Cancelled th = (cancel th, [])"
| "wrapper_step (Expired time) th = timerExpired time th"

fun run_wrapper :: "wrapper_event list \<Rightarrow> throttled \<Rightarrow> throttled \<times> real option list" where
  "run_wrapper [] th = (th, [])"
| "run_wrapper (e # es) th =
     (let (th1, out1) = wrapper_step e th;
          (th2, out2) = run_wrapper es th1
      in (th2, out1 @ out2))"

text \<open>
  What the handlers ask of the wrapper, at clock reading \<open>now\<close>: the effects
  \<open>ThrottledTrack\<close> and \<open>ThrottledCancel\<close> are its calls and its cancels.
\<close>

fun wrapper_events :: "int \<Rightarrow> effect list \<Rightarrow> wrapper_event list" where
  "wrapper_events now [] = []"
| "wrapper_events now (ThrottledTrack position # es) = Called now position # wrapper_events now es"
| "wrapper_events now (ThrottledCancel # es) = Cancelled # wrapper_events now es"
| "wrapper_events now (e # es) = wrapper_events now es"

text \<open>
  What can be seen of the wrapper over a sequence of events: each call, each invocation of
  the wrapped function (a report) with the clock reading at which it is made and whether a
  call or the expiry of the timer made it, and each cancel.
\<close>

datatype edge = AtCall | AtExpiry

datatype observation = CallMade int real | Reported int edge "real option" | Reset

fun observe :: "wrapper_event list \<Rightarrow> throttled \<Rightarrow> observation list" where
  "observe [] th = []"
| "observe (Called t x # es) th =
     CallMade t x # map (Reported t AtCall) (snd (debounced t x th))
       @ observe es (fst (debounced t x th))"
| "observe (Cancelled # es) th = Reset # observe es (cancel th)"
| "observe (Expired t # es) th =
     map (Reported t AtExpiry) (snd (timerExpired t th)) @ observe es (fst (timerExpired t th))"

text \<open>The clock readings of a sequence of events, in order.\<close>

fun readings :: "wrapper_event list \<Rightarrow> int list" where
  "readings [] = []"
| "readings (Called t x # es) = t # readings es"
| "readings (Cancelled # es) = readings es"
| "readings (Expired t # es) = t # readings es"

text \<open>
  The rate limit, \<open>prevAny\<close> being the reading of the previous report and \<open>prevCall\<close>
  that of the previous report made by a call, both since the last cancel: a report made
  at the expiry of the timer comes at least \<^verbatim>\<open>LOCATION_TRACK_EVENT_DELAY_MS\<close> after
  the previous report, a report made by a call at least that long after the previous
  report made by a call.
\<close>

fun rate_limited :: "int option \<Rightarrow> int option \<Rightarrow> observation list \<Rightarrow> bool" where
  "rate_limited prevAny prevCall [] = True"
| "rate_limited prevAny prevCall (CallMade t x # obs) = rate_limited prevAny prevCall obs"
| "rate_limited prevAny prevCall (Reset # obs) = rate_limited None None obs"
| "rate_limited prevAny prevCall (Reported t AtCall v # obs) =
     ((case prevCall of None \<Rightarrow> True | Some c \<Rightarrow> c + LOCATION_TRACK_EVENT_DELAY_MS \<le> t)
      \<and> rate_limited (Some t) (Some t) obs)"
| "rate_limited prevAny prevCall (Reported t AtExpiry v # obs) =
     ((case prevAny of None \<Rightarrow> True | Some a \<Rightarrow> a + LOCATION_TRACK_EVENT_DELAY_MS \<le> t)
      \<and> rate_limited (Some t) prevCall obs)"

text \<open>
  Every report carries the position of the most recent call, and that call has not been
  reported or cancelled before: \<open>pending\<close> is the position of the most recent call as
  long as it is neither.
\<close>

fun sends_latest :: "real option \<Rightarrow> observation list \<Rightarrow> bool" where
  "sends_latest pending [] = True"
| "sends_latest pending (CallMade t x # obs) = sends_latest (Some x) obs"
| "sends_latest pending (Reset # obs) = sends_latest None obs"
| "sends_latest pending (Reported t e v # obs) =
     (pending \<noteq> None \<and> v = pending \<and> sends_latest None obs)"

text \<open>The readings of the previous call and of the previous report, since the last cancel.\<close>

fun prev_call :: "int option \<Rightarrow> observation list \<Rightarrow> int option" where
  "prev_call a [] = a"
| "prev_call a (CallMade t x # obs) = prev_call (Some t) obs"
| "prev_call a (Reset # obs) = prev_call None obs"
| "prev_call a (Reported t e v # obs) = prev_call a obs"

fun prev_report :: "int option \<Rightarrow> observation list \<Rightarrow> int option" where
  "prev_report a [] = a"
| "prev_report a (CallMade t x # obs) = prev_report a obs"
| "prev_report a (Reset # obs) = prev_report None obs"
| "prev_report a (Reported t e v # obs) = prev_report (Some t) obs"

text \<open>
  How the variables of the wrapper follow what has happened, at clock reading \<open>now\<close>:
  before any call (since the last cancel) there has been no report and no timer is
  pending; after one, \<^verbatim>\<open>lastInvokeTime\<close> is the reading of the previous report, the
  previous report made by a call is not later than \<^verbatim>\<open>lastCallTime\<close> and
  \<^verbatim>\<open>lastInvokeTime\<close>, and while the timer is pending the last call is not older than
  the last report.
\<close>

definition wrapper_inv :: "throttled \<Rightarrow> int \<Rightarrow> int option \<Rightarrow> int option \<Rightarrow> bool" where
  "wrapper_inv th now prevAny prevCall \<longleftrightarrow>
     (case lastCallTime th of
        None \<Rightarrow> prevAny = None \<and> prevCall = None \<and> timerId th = None
      | Some lastCall \<Rightarrow>
          lastCall \<le> now \<and> lastInvokeTime th \<le> now \<and> prevAny = Some (lastInvokeTime th)
          \<and> (case prevCall of None \<Rightarrow> False
              | Some c \<Rightarrow> c \<le> lastCall \<and> c \<le> lastInvokeTime th)
          \<and> (timerId th \<noteq> None \<longrightarrow> lastInvokeTime th \<le> lastCall))"

subsection \<open>An example session\<close>

definition example_playlist :: "Video list" where
  "example_playlist =
     [\<lparr>sources = [''https://cdn.example/ef64f2fef0d6c776a337050020423fc0/a.m3u8''], guid = ''a1'',
       title = ''Intro'', tracks = [], external_id = ''fileA'',
       latest_media_location = Some 20, content_length = Some 60\<rparr>,
      \<lparr>sources = [''https://cdn.example/ef64f2fef0d6c776a337050020423fc0/b.m3u8''], guid = ''b2'',
       title = ''Lesson'', tracks = [], external_id = ''fileB'',
       latest_media_location = None, content_length = None\<rparr>]"

definition example_player :: "int \<Rightarrow> jwplayer" where
  "example_player i =
     \<lparr>getPlaylistIndex = i, getDuration = 60,
      getPlaylistItem = \<lparr>item_sources = [''https://cdn.example/a1/a.m3u8''], item_tracks = [],
                         item_title = ''Intro''\<rparr>,
      seekThrows = False\<rparr>"

definition example_props :: "string option \<Rightarrow> props" where
  "example_props pid = \<lparr>index_to_play = 0, url_redirect_id = ''redirect1'', purchase_id = pid\<rparr>"

section \<open>Auxiliary facts\<close>

lemma item_at_Some_iff:
  "item_at vs i = Some v \<longleftrightarrow> 0 \<le> i \<and> i < int (length vs) \<and> v = vs ! nat i"
  by (auto simp: item_at_def)

lemma item_at_None_iff:
  "item_at vs i = None \<longleftrightarrow> \<not> (0 \<le> i \<and> i < int (length vs))"
  by (auto simp: item_at_def)

lemma updateLocalMediaLocation_frame:
  "updateLocalMediaLocation p a b s = s\<lparr>playlist := playlist (updateLocalMediaLocation p a b s)\<rparr>"
  by (simp add: updateLocalMediaLocation_def split: option.splits)

lemma updateLocalMediaLocation_fields [simp]:
  "lastPlayedId (updateLocalMediaLocation p a b s) = lastPlayedId s"
  "isInitialSeekDone (updateLocalMediaLocation p a b s) = isInitialSeekDone s"
  "lastKnownPosition (updateLocalMediaLocation p a b s) = lastKnownPosition s"
  "lastKnownDuration (updateLocalMediaLocation p a b s) = lastKnownDuration s"
  "isBuffering (updateLocalMediaLocation p a b s) = isBuffering s"
  "bufferingStartedAt (updateLocalMediaLocation p a b s) = bufferingStartedAt s"
  "consecutiveReloadAttempts (updateLocalMediaLocation p a b s) = consecutiveReloadAttempts s"
  "bufferStallCheckTimeout (updateLocalMediaLocation p a b s) = bufferStallCheckTimeout s"
  "timers (updateLocalMediaLocation p a b s) = timers s"
  "nextTimer (updateLocalMediaLocation p a b s) = nextTimer s"
  "playlistItemOnce (updateLocalMediaLocation p a b s) = playlistItemOnce s"
  by (simp_all add: updateLocalMediaLocation_def split: option.splits)

lemma session_inv_playlist [simp]:
  "session_inv (s\<lparr>playlist := pl\<rparr>) = session_inv s"
  by (simp add: session_inv_def liveStallTimers_def)

lemma session_inv_updateLocalMediaLocation [simp]:
  "session_inv (updateLocalMediaLocation p a b s) = session_inv s"
  by (subst updateLocalMediaLocation_frame) simp

lemma session_inv_reloadAndResume:
  "session_inv s \<Longrightarrow> session_inv (fst (reloadAndResume p s))"
  by (auto simp: session_inv_def liveStallTimers_def reloadAndResume_def Let_def MAX_RELOAD_ATTEMPTS_def)

lemma session_inv_clearTimeout:
  "session_inv s \<Longrightarrow> session_inv (clearTimeout h s)"
  by (auto simp: session_inv_def liveStallTimers_def clearTimeout_def distinct_map_filter)

lemma session_inv_setTimeout_seek:
  "session_inv s \<Longrightarrow> session_inv (snd (setTimeout (SeekAfterReload r) d s))"
  by (fastforce simp: session_inv_def liveStallTimers_def setTimeout_def)

lemma session_inv_resumeAfterReload:
  "session_inv s \<Longrightarrow> session_inv (fst (resumeAfterReload r s))"
  by (simp add: resumeAfterReload_def session_inv_setTimeout_seek)

lemma session_inv_runListeners:
  "session_inv s \<Longrightarrow> session_inv (fst (runListeners rs s))"
proof (induction rs arbitrary: s)
  case Nil
  then show ?case by simp
next
  case (Cons r rs)
  from Cons.prems have "session_inv (fst (resumeAfterReload r s))"
    by (rule session_inv_resumeAfterReload)
  then have "session_inv (fst (runListeners rs (fst (resumeAfterReload r s))))"
    by (rule Cons.IH)
  then show ?case by (simp add: split_beta)
qed

lemma session_inv_onPlaylistItem:
  "session_inv s \<Longrightarrow> session_inv (fst (onPlaylistItem s))"
  unfolding onPlaylistItem_def
  by (rule session_inv_runListeners) (simp add: session_inv_def liveStallTimers_def)

lemma session_inv_onTime:
  "session_inv s \<Longrightarrow> session_inv (fst (onTime p a b s))"
  unfolding onTime_def Let_def
  by (auto simp: session_inv_def liveStallTimers_def clearTimeout_def distinct_map_filter
        MAX_RELOAD_ATTEMPTS_def split: option.splits)

lemma session_inv_onBuffer:
  "session_inv s \<Longrightarrow> session_inv (fst (onBuffer now s))"
  unfolding onBuffer_def Let_def
  by (fastforce simp: session_inv_def liveStallTimers_def clearTimeout_def setTimeout_def
        distinct_map_filter split: option.splits)

lemma session_inv_bufferStallCheck:
  assumes "session_inv s" and "liveStallTimers s = []"
  shows "session_inv (fst (bufferStallCheck p now s))"
proof -
  have "session_inv (fst (reloadAndResume p s))"
    using assms(1) by (rule session_inv_reloadAndResume)
  moreover have "timers (fst (reloadAndResume p s)) = timers s"
    by (simp add: reloadAndResume_def Let_def)
  ultimately show ?thesis
    using assms
    by (auto simp: bufferStallCheck_def session_inv_def liveStallTimers_def split_beta
          filter_empty_conv)
qed

lemma map_of_timers_stall:
  assumes "session_inv s" and "map_of (timers s) h = Some (d, StallCheck)"
  shows "liveStallTimers (clearTimeout h s) = []"
proof -
  from assms(2) have "(h, d, StallCheck) \<in> set (liveStallTimers s)"
    by (auto simp: liveStallTimers_def dest: map_of_SomeD)
  with assms(1) have "bufferStallCheckTimeout s = Some h"
    by (auto simp: session_inv_def)
  with assms(1) have "\<forall>t \<in> set (liveStallTimers s). fst t = h"
    by (auto simp: session_inv_def)
  then show ?thesis
    by (force simp: liveStallTimers_def clearTimeout_def filter_empty_conv)
qed

lemma session_inv_fireTimer:
  assumes "session_inv s"
  shows "session_inv (fst (snd (fireTimer p now h s)))"
proof (cases "map_of (timers s) h")
  case None
  then show ?thesis using assms by (simp add: fireTimer_def)
next
  case (Some dc)
  obtain d cb where dc: "dc = (d, cb)" by (cases dc)
  have c: "session_inv (clearTimeout h s)"
    using assms by (rule session_inv_clearTimeout)
  show ?thesis
  proof (cases cb)
    case StallCheck
    with Some dc have "liveStallTimers (clearTimeout h s) = []"
      using map_of_timers_stall [OF assms] by simp
    with c have "session_inv (fst (bufferStallCheck p now (clearTimeout h s)))"
      by (rule session_inv_bufferStallCheck)
    with Some dc StallCheck show ?thesis
      by (simp add: fireTimer_def split_beta)
  next
    case (SeekAfterReload r)
    with Some dc c show ?thesis
      by (simp add: fireTimer_def seekAfterReload_def player_seek_def)
  qed
qed

lemma session_inv_onVisualQuality:
  "session_inv s \<Longrightarrow> session_inv (fst (snd (onVisualQuality p s)))"
  by (auto simp: onVisualQuality_def Let_def player_seek_def session_inv_def liveStallTimers_def
        split: option.splits)

lemma session_inv_onPlay:
  "session_inv s \<Longrightarrow> session_inv (fst (onPlay pr p s))"
  by (auto simp: onPlay_def Let_def session_inv_def liveStallTimers_def split: option.splits)

lemma session_inv_onSeek:
  "session_inv s \<Longrightarrow> session_inv (fst (onSeek pr p x s))"
  unfolding onSeek_def Let_def
  by (simp add: session_inv_def liveStallTimers_def)

lemma session_inv_onComplete:
  "session_inv s \<Longrightarrow> session_inv (fst (onComplete pr p s))"
  by (simp add: onComplete_def Let_def split: option.splits)

lemma session_inv_onIdle:
  "session_inv s \<Longrightarrow> session_inv (fst (onIdle p s))"
  by (simp add: onIdle_def split_beta session_inv_reloadAndResume)

lemma session_inv_onError:
  "session_inv s \<Longrightarrow> session_inv (fst (onError p s))"
  by (simp add: onError_def split_beta session_inv_reloadAndResume)

lemma session_inv_dispatch:
  "session_inv s \<Longrightarrow> session_inv (fst (snd (dispatch pr p now ev s)))"
  by (cases ev)
     (simp_all add: dispatch_def onReady_def session_inv_onSeek session_inv_onTime
        session_inv_onComplete session_inv_onPlay session_inv_onBuffer session_inv_onIdle
        session_inv_onError session_inv_onVisualQuality session_inv_onPlaylistItem
        session_inv_fireTimer)

lemma session_inv_run:
  "session_inv s \<Longrightarrow> session_inv (fst (run pr evs s))"
proof (induction evs arbitrary: s)
  case Nil
  then show ?case by simp
next
  case (Cons o1 evs)
  obtain p now ev where o1: "o1 = (p, now, ev)" by (cases o1)
  from Cons.prems have "session_inv (fst (snd (dispatch pr p now ev s)))"
    by (rule session_inv_dispatch)
  then have "session_inv (fst (run pr evs (fst (snd (dispatch pr p now ev s)))))"
    by (rule Cons.IH)
  then show ?case by (simp add: o1 split_beta)
qed

lemma session_inv_initial: "session_inv (initial pl)"
  by (simp add: session_inv_def initial_def liveStallTimers_def)

lemma session_inv_reachable: "session_inv (fst (run pr evs (initial pl)))"
  by (rule session_inv_run) (rule session_inv_initial)


lemma reloads_simps [simp]:
  "reloads [] = 0"
  "reloads (e # es) = (if isLoad e then Suc (reloads es) else reloads es)"
  "reloads (es @ es') = reloads es + reloads es'"
  by (simp_all add: reloads_def)

lemma attempts_reloadAndResume:
  "consecutiveReloadAttempts (fst (reloadAndResume p s)) =
     consecutiveReloadAttempts s + reloads (snd (reloadAndResume p s))"
  by (simp add: reloadAndResume_def Let_def)

lemma attempts_resumeAfterReload:
  "consecutiveReloadAttempts (fst (resumeAfterReload r s)) = consecutiveReloadAttempts s
   \<and> reloads (snd (resumeAfterReload r s)) = 0"
  by (simp add: resumeAfterReload_def setTimeout_def)

lemma attempts_runListeners:
  "consecutiveReloadAttempts (fst (runListeners rs s)) = consecutiveReloadAttempts s
   \<and> reloads (snd (runListeners rs s)) = 0"
  by (induction rs arbitrary: s) (simp_all add: split_beta attempts_resumeAfterReload)

lemma attempts_fireTimer:
  "consecutiveReloadAttempts (fst (snd (fireTimer p now h s))) =
     consecutiveReloadAttempts s + reloads (snd (snd (fireTimer p now h s)))"
  using attempts_reloadAndResume [of p "clearTimeout h s"]
  by (auto simp: fireTimer_def bufferStallCheck_def seekAfterReload_def player_seek_def
        clearTimeout_def split_beta Let_def split: option.splits callback.splits)

lemma attempts_onVisualQuality:
  "consecutiveReloadAttempts (fst (snd (onVisualQuality p s))) = consecutiveReloadAttempts s
   \<and> reloads (snd (snd (onVisualQuality p s))) = 0"
  by (simp add: onVisualQuality_def Let_def player_seek_def split: option.splits)

lemma reloads_trackMediaLocation [simp]:
  "reloads (trackMediaLocation pr p x s) = 0"
  by (simp add: trackMediaLocation_def split: option.splits)

lemma attempts_dispatch:
  assumes "\<not> isTime ev"
  shows "consecutiveReloadAttempts (fst (snd (dispatch pr p now ev s))) =
           consecutiveReloadAttempts s + reloads (snd (snd (dispatch pr p now ev s)))"
proof (cases ev)
  case (OnTime a b)
  with assms show ?thesis by simp
next
  case OnBuffer
  then show ?thesis
    by (simp add: dispatch_def onBuffer_def Let_def setTimeout_def clearTimeout_def
          split: option.splits)
next
  case OnIdle
  then show ?thesis
    by (simp add: dispatch_def onIdle_def split_beta attempts_reloadAndResume)
next
  case OnError
  then show ?thesis
    by (simp add: dispatch_def onError_def split_beta attempts_reloadAndResume)
next
  case OnPlaylistItem
  then show ?thesis
    by (simp add: dispatch_def onPlaylistItem_def attempts_runListeners)
next
  case (TimerFired h)
  then show ?thesis
    by (simp add: dispatch_def attempts_fireTimer)
next
  case OnVisualQuality
  then show ?thesis
    by (simp add: dispatch_def attempts_onVisualQuality)
qed (simp_all add: dispatch_def onReady_def onSeek_def onComplete_def onPlay_def Let_def
       split: option.splits)

lemma attempts_run:
  assumes "\<forall>oc \<in> set evs. \<not> isTime (snd (snd oc))"
  shows "consecutiveReloadAttempts (fst (run pr evs s)) =
           consecutiveReloadAttempts s + reloads (snd (run pr evs s))"
  using assms
proof (induction evs arbitrary: s)
  case Nil
  then show ?case by simp
next
  case (Cons oc evs)
  obtain p now ev where oc: "oc = (p, now, ev)" by (cases oc)
  from Cons.prems oc have "\<not> isTime ev" by simp
  then have 1: "consecutiveReloadAttempts (fst (snd (dispatch pr p now ev s))) =
           consecutiveReloadAttempts s + reloads (snd (snd (dispatch pr p now ev s)))"
    by (rule attempts_dispatch)
  from Cons.prems have "\<forall>oc \<in> set evs. \<not> isTime (snd (snd oc))" by simp
  from Cons.IH [OF this, of "fst (snd (dispatch pr p now ev s))"] 1
  show ?case by (simp add: oc split_beta)
qed

lemma stall_timers_at_most_one:
  assumes "distinct (map fst ts)" and "\<forall>t \<in> set (filter P ts). fst t = h"
  shows "length (filter P ts) \<le> 1"
proof -
  have "distinct (map fst (filter P ts))"
    using assms(1) by (rule distinct_map_filter)
  then have "card (set (map fst (filter P ts))) = length (map fst (filter P ts))"
    by (rule distinct_card)
  moreover have "card (set (map fst (filter P ts))) \<le> card {h}"
    using assms(2) by (intro card_mono) auto
  ultimately show ?thesis by simp
qed

lemma session_inv_one_stall_timer:
  assumes "session_inv s"
  shows "length (liveStallTimers s) \<le> 1"
proof (cases "bufferStallCheckTimeout s")
  case None
  with assms have "liveStallTimers s = []"
    by (cases "liveStallTimers s") (auto simp: session_inv_def)
  then show ?thesis by simp
next
  case (Some h)
  with assms have "\<forall>t \<in> set (liveStallTimers s). fst t = h"
    by (auto simp: session_inv_def)
  moreover from assms have "distinct (map fst (timers s))"
    by (simp add: session_inv_def)
  ultimately show ?thesis
    unfolding liveStallTimers_def by (intro stall_timers_at_most_one)
qed

lemma session_inv_cancel_stall:
  assumes "session_inv s"
  shows "filter (\<lambda>t. snd (snd t) = StallCheck)
           (filter (\<lambda>t. Some (fst t) \<noteq> bufferStallCheckTimeout s) (timers s)) = []"
  using assms by (force simp: session_inv_def liveStallTimers_def filter_empty_conv)

lemma timers_onBuffer:
  "timers (fst (onBuffer now s)) =
     filter (\<lambda>t. Some (fst t) \<noteq> bufferStallCheckTimeout s) (timers s)
       @ [(nextTimer s, BUFFER_STALL_MS + 50, StallCheck)]
   \<and> bufferStallCheckTimeout (fst (onBuffer now s)) = Some (nextTimer s)"
  by (simp add: onBuffer_def Let_def setTimeout_def clearTimeout_def split: option.splits)

lemma timers_onTime:
  "timers (fst (onTime p position duration s)) =
     filter (\<lambda>t. Some (fst t) \<noteq> bufferStallCheckTimeout s) (timers s)
   \<and> bufferStallCheckTimeout (fst (onTime p position duration s)) = None"
  by (simp add: onTime_def Let_def clearTimeout_def split: option.splits)

lemma reloadAndResume_fields [simp]:
  "playlist (fst (reloadAndResume p s)) = playlist s"
  "lastPlayedId (fst (reloadAndResume p s)) = lastPlayedId s"
  "isInitialSeekDone (fst (reloadAndResume p s)) = isInitialSeekDone s"
  "lastKnownPosition (fst (reloadAndResume p s)) = lastKnownPosition s"
  "lastKnownDuration (fst (reloadAndResume p s)) = lastKnownDuration s"
  "isBuffering (fst (reloadAndResume p s)) = isBuffering s"
  "bufferingStartedAt (fst (reloadAndResume p s)) = bufferingStartedAt s"
  "bufferStallCheckTimeout (fst (reloadAndResume p s)) = bufferStallCheckTimeout s"
  "timers (fst (reloadAndResume p s)) = timers s"
  "nextTimer (fst (reloadAndResume p s)) = nextTimer s"
  by (simp_all add: reloadAndResume_def Let_def)

lemma runListeners_fields [simp]:
  "playlist (fst (runListeners rs s)) = playlist s
   \<and> lastPlayedId (fst (runListeners rs s)) = lastPlayedId s
   \<and> isInitialSeekDone (fst (runListeners rs s)) = isInitialSeekDone s
   \<and> lastKnownPosition (fst (runListeners rs s)) = lastKnownPosition s
   \<and> lastKnownDuration (fst (runListeners rs s)) = lastKnownDuration s
   \<and> isBuffering (fst (runListeners rs s)) = isBuffering s
   \<and> bufferingStartedAt (fst (runListeners rs s)) = bufferingStartedAt s
   \<and> consecutiveReloadAttempts (fst (runListeners rs s)) = consecutiveReloadAttempts s
   \<and> bufferStallCheckTimeout (fst (runListeners rs s)) = bufferStallCheckTimeout s
   \<and> playlistItemOnce (fst (runListeners rs s)) = playlistItemOnce s"
  by (induction rs arbitrary: s) (simp_all add: split_beta resumeAfterReload_def setTimeout_def)

lemma effects_runListeners:
  "snd (runListeners rs s) = replicate (length rs) (PlayCmd True)"
  by (induction rs arbitrary: s) (simp_all add: split_beta resumeAfterReload_def)

lemma effects_reloadAndResume:
  "filter isReport (snd (reloadAndResume p s)) = []"
  "filter isWatch (snd (reloadAndResume p s)) = []"
  by (simp_all add: reloadAndResume_def Let_def)

lemma reports_fireTimer:
  "filter isReport (snd (snd (fireTimer p now h s))) = []"
  by (auto simp: fireTimer_def bufferStallCheck_def seekAfterReload_def player_seek_def
        split_beta Let_def effects_reloadAndResume split: option.splits callback.splits)

lemma reports_dispatch_anonymous:
  assumes "purchase_id pr = None"
  shows "filter isReport (snd (snd (dispatch pr p now ev s))) = []"
  using assms
  by (cases ev)
     (auto simp: dispatch_def onReady_def onSeek_def onTime_def onComplete_def onPlay_def
        onBuffer_def onIdle_def onError_def onVisualQuality_def onPlaylistItem_def
        effects_runListeners reports_fireTimer effects_reloadAndResume
        trackMediaLocation_def player_seek_def split_beta Let_def split: option.splits)

lemma reports_run_anonymous:
  assumes "purchase_id pr = None"
  shows "filter isReport (snd (run pr evs s)) = []"
proof (induction evs arbitrary: s)
  case Nil
  then show ?case by simp
next
  case (Cons oc evs)
  obtain p now ev where oc: "oc = (p, now, ev)" by (cases oc)
  show ?case
    using Cons.IH reports_dispatch_anonymous [OF assms]
    by (simp add: oc split_beta)
qed

lemma external_ids_update:
  assumes "k < length vs"
  shows "map external_id (vs[k := (vs ! k)\<lparr>latest_media_location := x\<rparr>]) = map external_id vs"
proof -
  have "map external_id (vs[k := (vs ! k)\<lparr>latest_media_location := x\<rparr>])
          = (map external_id vs)[k := map external_id vs ! k]"
    using assms by (simp add: map_update)
  then show ?thesis by simp
qed

lemma external_ids_updateLocalMediaLocation [simp]:
  "map external_id (playlist (updateLocalMediaLocation p a b s)) = map external_id (playlist s)"
  by (auto simp: updateLocalMediaLocation_def item_at_def external_ids_update Let_def
        split: option.splits)

lemma length_updateLocalMediaLocation [simp]:
  "length (playlist (updateLocalMediaLocation p a b s)) = length (playlist s)"
  by (simp add: updateLocalMediaLocation_def Let_def split: option.splits)

lemma fireTimer_fields [simp]:
  "playlist (fst (snd (fireTimer p now h s))) = playlist s"
  "lastPlayedId (fst (snd (fireTimer p now h s))) = lastPlayedId s"
  "isInitialSeekDone (fst (snd (fireTimer p now h s))) = isInitialSeekDone s"
  by (auto simp: fireTimer_def bufferStallCheck_def seekAfterReload_def player_seek_def
        clearTimeout_def split_beta Let_def split: option.splits callback.splits)

lemma watch_fireTimer [simp]:
  "filter isWatch (snd (snd (fireTimer p now h s))) = []"
  by (auto simp: fireTimer_def bufferStallCheck_def seekAfterReload_def player_seek_def
        split_beta Let_def effects_reloadAndResume split: option.splits callback.splits)

lemma watch_trackMediaLocation [simp]:
  "filter isWatch (trackMediaLocation pr p x s) = []"
  by (simp add: trackMediaLocation_def split: option.splits)

lemma external_ids_dispatch:
  "map external_id (playlist (fst (snd (dispatch pr p now ev s)))) = map external_id (playlist s)"
  by (cases ev)
     (auto simp: dispatch_def onReady_def onSeek_def onTime_def onComplete_def onPlay_def
        onBuffer_def onIdle_def onError_def onVisualQuality_def onPlaylistItem_def
        clearTimeout_def setTimeout_def player_seek_def split_beta Let_def
        split: option.splits)

lemma lastPlayedId_dispatch:
  "lastPlayedId (fst (snd (dispatch pr p now ev s))) =
     (if ev = OnPlay \<and> item_at (playlist s) (getPlaylistIndex p) \<noteq> None
      then Some (getPlaylistIndex p) else lastPlayedId s)"
  by (cases ev)
     (auto simp: dispatch_def onReady_def onSeek_def onTime_def onComplete_def onPlay_def
        onBuffer_def onIdle_def onError_def onVisualQuality_def onPlaylistItem_def
        clearTimeout_def setTimeout_def player_seek_def split_beta Let_def
        split: option.splits)

lemma watch_dispatch:
  "filter isWatch (snd (snd (dispatch pr p now ev s))) =
     (if ev = OnPlay \<and> item_at (playlist s) (getPlaylistIndex p) \<noteq> None
         \<and> lastPlayedId s \<noteq> Some (getPlaylistIndex p)
      then [watchEvent pr (map external_id (playlist s)) (getPlaylistIndex p)] else [])"
  by (cases ev)
     (auto simp: dispatch_def onReady_def onSeek_def onTime_def onComplete_def onPlay_def
        onBuffer_def onIdle_def onError_def onVisualQuality_def onPlaylistItem_def
        effects_runListeners effects_reloadAndResume watchEvent_def item_at_def
        player_seek_def split_beta Let_def
        split: option.splits)

lemma watch_run:
  "filter isWatch (snd (run pr evs s)) =
     map (watchEvent pr (map external_id (playlist s)))
       (activations (lastPlayedId s) (playedItems (length (playlist s)) evs))"
proof (induction evs arbitrary: s)
  case Nil
  then show ?case by simp
next
  case (Cons oc evs)
  obtain p now ev where oc: "oc = (p, now, ev)" by (cases oc)
  let ?s1 = "fst (snd (dispatch pr p now ev s))"
  have ids: "map external_id (playlist ?s1) = map external_id (playlist s)"
    by (rule external_ids_dispatch)
  then have len: "length (playlist ?s1) = length (playlist s)"
    by (metis length_map)
  have "filter isWatch (snd (run pr evs ?s1)) =
     map (watchEvent pr (map external_id (playlist s)))
       (activations (lastPlayedId ?s1) (playedItems (length (playlist s)) evs))"
    using Cons.IH [of ?s1] by (simp add: ids len)
  then show ?case
    by (simp add: oc split_beta watch_dispatch lastPlayedId_dispatch item_at_None_iff)
qed

lemma activations_remdups_adj:
  "activations prev is =
     (case prev of None \<Rightarrow> remdups_adj is | Some j \<Rightarrow> tl (remdups_adj (j # is)))"
  by (induction "is" arbitrary: prev) (auto split: option.splits)

lemma playedItems_in_range:
  "i \<in> set (playedItems n evs) \<Longrightarrow> 0 \<le> i \<and> i < int n"
  by (induction n evs rule: playedItems.induct) (auto split: if_splits)

lemma seek_done_dispatch:
  assumes "isInitialSeekDone s" and "lastPlayedId s = Some (getPlaylistIndex p)"
  shows "isInitialSeekDone (fst (snd (dispatch pr p now ev s)))"
  using assms
  by (cases ev)
     (auto simp: dispatch_def onReady_def onSeek_def onTime_def onComplete_def onPlay_def
        onBuffer_def onIdle_def onError_def onVisualQuality_def onPlaylistItem_def
        clearTimeout_def setTimeout_def player_seek_def split_beta Let_def
        split: option.splits)

lemma seek_done_run:
  assumes "isInitialSeekDone s" and "lastPlayedId s = Some i"
    and "\<forall>oc \<in> set evs. getPlaylistIndex (fst oc) = i"
  shows "isInitialSeekDone (fst (run pr evs s)) \<and> lastPlayedId (fst (run pr evs s)) = Some i"
  using assms
proof (induction evs arbitrary: s)
  case Nil
  then show ?case by simp
next
  case (Cons oc evs)
  obtain p now ev where oc: "oc = (p, now, ev)" by (cases oc)
  let ?s1 = "fst (snd (dispatch pr p now ev s))"
  from Cons.prems oc have i: "getPlaylistIndex p = i" by simp
  with Cons.prems have "isInitialSeekDone ?s1"
    by (intro seek_done_dispatch) simp_all
  moreover from Cons.prems i have "lastPlayedId ?s1 = Some i"
    by (simp add: lastPlayedId_dispatch)
  moreover from Cons.prems have "\<forall>oc \<in> set evs. getPlaylistIndex (fst oc) = i" by simp
  ultimately have "isInitialSeekDone (fst (run pr evs ?s1))
      \<and> lastPlayedId (fst (run pr evs ?s1)) = Some i"
    by (rule Cons.IH)
  then show ?case by (simp add: oc split_beta)
qed

lemma timers_runListeners:
  "timers (fst (runListeners rs s)) = timers s @ seekTimers (nextTimer s) (filter (\<lambda>r. 0 < r) rs)
   \<and> nextTimer (fst (runListeners rs s)) = nextTimer s + length (filter (\<lambda>r. 0 < r) rs)"
  by (induction rs arbitrary: s) (simp_all add: split_beta resumeAfterReload_def setTimeout_def)

lemma seekTimers_append:
  "seekTimers n (rs @ rs') = seekTimers n rs @ seekTimers (n + length rs) rs'"
  by (induction rs arbitrary: n) simp_all

lemma seekTimers_mem:
  "(h, d, cb) \<in> set (seekTimers n rs) \<Longrightarrow> d = 250 \<and> (\<exists>r \<in> set rs. cb = SeekAfterReload r)"
  by (induction rs arbitrary: n) auto

lemma map_of_timers_filter:
  "h' \<noteq> h \<Longrightarrow> map_of (filter (\<lambda>t. fst t \<noteq> h') ts) h = map_of ts h"
  by (induction ts) auto

lemma map_of_timers_append:
  "map_of ts h = Some v \<Longrightarrow> map_of (ts @ ts') h = Some v"
  by (simp add: map_add_Some_iff)

lemma map_of_timers_cleared:
  "map_of (filter (\<lambda>t. fst t \<noteq> h) ts) h = None"
  by (induction ts) auto

lemma armed_reloadAndResume:
  "armed h t0 s \<Longrightarrow> armed h t0 (fst (reloadAndResume p s))"
  by (simp add: armed_def)

lemma armed_runListeners:
  "armed h t0 s \<Longrightarrow> armed h t0 (fst (runListeners rs s))"
  by (simp add: armed_def timers_runListeners map_of_timers_append)

lemma armed_fireTimer:
  assumes "session_inv s" and "armed h t0 s" and "h' \<noteq> h"
  shows "armed h t0 (fst (snd (fireTimer p now h' s)))"
proof (cases "map_of (timers s) h'")
  case None
  with assms(2) show ?thesis by (simp add: fireTimer_def)
next
  case (Some dc)
  obtain d cb where dc: "dc = (d, cb)" by (cases dc)
  show ?thesis
  proof (cases cb)
    case StallCheck
    with Some dc have "(h', d, StallCheck) \<in> set (liveStallTimers s)"
      by (auto simp: liveStallTimers_def dest: map_of_SomeD)
    with assms(1) have "bufferStallCheckTimeout s = Some h'"
      by (auto simp: session_inv_def)
    with assms(2,3) show ?thesis by (simp add: armed_def)
  next
    case (SeekAfterReload r)
    with Some dc assms(2,3) show ?thesis
      by (simp add: fireTimer_def seekAfterReload_def player_seek_def armed_def clearTimeout_def
            map_of_timers_filter)
  qed
qed

lemma armed_dispatch:
  assumes "session_inv s" and "armed h t0 s" and "uninterrupted h ev"
  shows "armed h t0 (fst (snd (dispatch pr p now ev s)))"
proof (cases ev)
  case (TimerFired h')
  with assms show ?thesis by (simp add: dispatch_def armed_fireTimer)
next
  case OnPlaylistItem
  from assms(2) have "armed h t0 (s\<lparr>playlistItemOnce := []\<rparr>)"
    by (simp add: armed_def)
  then have "armed h t0 (fst (runListeners (playlistItemOnce s) (s\<lparr>playlistItemOnce := []\<rparr>)))"
    by (rule armed_runListeners)
  with OnPlaylistItem show ?thesis
    by (simp add: dispatch_def onPlaylistItem_def)
next
  case OnIdle
  with assms(2) show ?thesis
    by (simp add: dispatch_def onIdle_def split_beta armed_reloadAndResume)
next
  case OnError
  with assms(2) show ?thesis
    by (simp add: dispatch_def onError_def split_beta armed_reloadAndResume)
next
  case OnVisualQuality
  with assms(2) show ?thesis
    by (auto simp: dispatch_def onVisualQuality_def Let_def player_seek_def armed_def
          split: option.splits)
qed (use assms in \<open>auto simp: dispatch_def onReady_def onSeek_def onComplete_def onPlay_def
       armed_def Let_def split: option.splits\<close>)

lemma armed_run:
  assumes "session_inv s" and "armed h t0 s"
    and "\<forall>oc \<in> set evs. uninterrupted h (snd (snd oc))"
  shows "armed h t0 (fst (run pr evs s))"
  using assms
proof (induction evs arbitrary: s)
  case Nil
  then show ?case by simp
next
  case (Cons oc evs)
  obtain p now ev where oc: "oc = (p, now, ev)" by (cases oc)
  let ?s1 = "fst (snd (dispatch pr p now ev s))"
  from Cons.prems oc have "uninterrupted h ev" by simp
  with Cons.prems have "armed h t0 ?s1" by (intro armed_dispatch)
  moreover from Cons.prems have "session_inv ?s1" by (intro session_inv_dispatch)
  moreover from Cons.prems have "\<forall>oc \<in> set evs. uninterrupted h (snd (snd oc))" by simp
  ultimately have "armed h t0 (fst (run pr evs ?s1))" by (intro Cons.IH)
  then show ?case by (simp add: oc split_beta)
qed

lemma armed_onBuffer:
  assumes "session_inv s"
  shows "armed (nextTimer s) now (fst (onBuffer now s))"
proof -
  have "map_of (filter (\<lambda>t. Some (fst t) \<noteq> bufferStallCheckTimeout s) (timers s)) (nextTimer s) = None"
    using assms by (force simp: session_inv_def map_of_eq_None_iff)
  then show ?thesis
    using timers_onBuffer [of now s]
    by (simp add: armed_def map_add_def) (simp add: onBuffer_def Let_def setTimeout_def clearTimeout_def split: option.splits)
qed

lemma fireTimer_armed:
  assumes "armed h t0 s" and "BUFFER_STALL_MS \<le> now - t0"
  shows "fireTimer p now h s =
           (Returned,
            (fst (reloadAndResume p (clearTimeout h s)))\<lparr>bufferStallCheckTimeout := None\<rparr>,
            Log ''buffer stall detected, attempting reload'' # snd (reloadAndResume p (clearTimeout h s)))"
  using assms
  by (simp add: armed_def fireTimer_def bufferStallCheck_def split_beta clearTimeout_def Let_def)

lemma fireTimer_not_pending:
  "map_of (timers s) h = None \<Longrightarrow> fireTimer p now h s = (Returned, s, [])"
  by (simp add: fireTimer_def)

lemma reports_debounced:
  "snd (debounced t x th) = (if shouldInvoke t th then [Some x] else [])"
  by (simp add: debounced_def Let_def leadingEdge_def invokeFunc_def)

lemma held_debounced:
  "\<not> shouldInvoke t th \<Longrightarrow>
     lastArgs (fst (debounced t x th)) = Some x \<and> timerId (fst (debounced t x th)) \<noteq> None"
  by (auto simp: debounced_def Let_def)

lemma reports_timerExpired:
  "snd (timerExpired t th) =
     (if timerId th \<noteq> None \<and> shouldInvoke t th
      then (case lastArgs th of Some v \<Rightarrow> [Some v] | None \<Rightarrow> []) else [])"
  by (auto simp: timerExpired_def trailingEdge_def invokeFunc_def Let_def
        split: option.splits)

lemma cancel_new: "cancel th = new_throttled"
  by (simp add: cancel_def new_throttled_def)

lemma wrapper_inv_new: "wrapper_inv new_throttled now None None"
  by (simp add: wrapper_inv_def new_throttled_def)

lemma wrapper_inv_debounced:
  assumes "wrapper_inv th now pa pc" and "now \<le> t"
  shows "if shouldInvoke t th
         then (case pc of None \<Rightarrow> True | Some c \<Rightarrow> c + LOCATION_TRACK_EVENT_DELAY_MS \<le> t)
              \<and> wrapper_inv (fst (debounced t x th)) t (Some t) (Some t)
         else wrapper_inv (fst (debounced t x th)) t pa pc"
  using assms
  by (auto simp: wrapper_inv_def debounced_def shouldInvoke_def leadingEdge_def invokeFunc_def
        Let_def LOCATION_TRACK_EVENT_DELAY_MS_def split: option.splits)

lemma wrapper_inv_timerExpired:
  assumes "wrapper_inv th now pa pc" and "now \<le> t"
  shows "if snd (timerExpired t th) = []
         then wrapper_inv (fst (timerExpired t th)) t pa pc
         else (case pa of None \<Rightarrow> True | Some a \<Rightarrow> a + LOCATION_TRACK_EVENT_DELAY_MS \<le> t)
              \<and> wrapper_inv (fst (timerExpired t th)) t (Some t) pc"
  using assms
  by (auto simp: wrapper_inv_def timerExpired_def shouldInvoke_def trailingEdge_def invokeFunc_def
        Let_def LOCATION_TRACK_EVENT_DELAY_MS_def split: option.splits)

lemma rate_limited_observe:
  assumes "wrapper_inv th now pa pc" and "sorted (readings es)"
    and "\<forall>t \<in> set (readings es). now \<le> t"
  shows "rate_limited pa pc (observe es th)"
  using assms
proof (induction es arbitrary: th now pa pc)
  case Nil
  then show ?case by simp
next
  case (Cons e es)
  show ?case
  proof (cases e)
    case (Called t x)
    with Cons.prems have t: "now \<le> t" and s: "sorted (readings es)"
      and l: "\<forall>u \<in> set (readings es). t \<le> u"
      by simp_all
    show ?thesis
    proof (cases "shouldInvoke t th")
      case True
      with wrapper_inv_debounced [OF Cons.prems(1) t, of x]
      have c: "case pc of None \<Rightarrow> True | Some c \<Rightarrow> c + LOCATION_TRACK_EVENT_DELAY_MS \<le> t"
        and tr: "wrapper_inv (fst (debounced t x th)) t (Some t) (Some t)"
        by simp_all
      from Cons.IH [OF tr s l] c True Called show ?thesis
        by (simp add: reports_debounced)
    next
      case False
      with wrapper_inv_debounced [OF Cons.prems(1) t, of x]
      have tr: "wrapper_inv (fst (debounced t x th)) t pa pc"
        by simp
      from Cons.IH [OF tr s l] False Called show ?thesis
        by (simp add: reports_debounced)
    qed
  next
    case Cancelled
    with Cons.prems have s: "sorted (readings es)"
      and l: "\<forall>u \<in> set (readings es). now \<le> u"
      by simp_all
    have "wrapper_inv (cancel th) now None None"
      by (simp add: cancel_new wrapper_inv_new)
    from Cons.IH [OF this s l] Cancelled show ?thesis
      by simp
  next
    case (Expired t)
    with Cons.prems have t: "now \<le> t" and s: "sorted (readings es)"
      and l: "\<forall>u \<in> set (readings es). t \<le> u"
      by simp_all
    show ?thesis
    proof (cases "snd (timerExpired t th) = []")
      case True
      with wrapper_inv_timerExpired [OF Cons.prems(1) t]
      have tr: "wrapper_inv (fst (timerExpired t th)) t pa pc"
        by simp
      from Cons.IH [OF tr s l] True Expired show ?thesis
        by simp
    next
      case False
      with wrapper_inv_timerExpired [OF Cons.prems(1) t]
      have c: "case pa of None \<Rightarrow> True | Some a \<Rightarrow> a + LOCATION_TRACK_EVENT_DELAY_MS \<le> t"
        and tr: "wrapper_inv (fst (timerExpired t th)) t (Some t) pc"
        by simp_all
      from False obtain v where v: "snd (timerExpired t th) = [v]"
        by (auto simp: reports_timerExpired split: if_splits option.splits)
      from Cons.IH [OF tr s l] c v Expired show ?thesis
        by simp
    qed
  qed
qed

lemma sends_latest_observe:
  "sends_latest (lastArgs th) (observe es th)"
proof (induction es arbitrary: th)
  case Nil
  then show ?case by simp
next
  case (Cons e es)
  show ?case
  proof (cases e)
    case (Called t x)
    have "lastArgs (fst (debounced t x th)) = (if shouldInvoke t th then None else Some x)"
      by (simp add: debounced_def Let_def leadingEdge_def invokeFunc_def)
    with Cons.IH [of "fst (debounced t x th)"] Called show ?thesis
      by (simp add: reports_debounced split: if_splits)
  next
    case Cancelled
    with Cons.IH [of "cancel th"] show ?thesis
      by (simp add: cancel_def)
  next
    case (Expired t)
    have "lastArgs (fst (timerExpired t th)) =
            (if timerId th \<noteq> None \<and> shouldInvoke t th then None else lastArgs th)"
      by (auto simp: timerExpired_def trailingEdge_def invokeFunc_def Let_def
            split: option.splits)
    with Cons.IH [of "fst (timerExpired t th)"] Expired show ?thesis
      by (auto simp: reports_timerExpired split: option.splits)
  qed
qed

lemma prev_call_observe:
  "lastCallTime (fst (run_wrapper es th)) = prev_call (lastCallTime th) (observe es th)"
proof (induction es arbitrary: th)
  case Nil
  then show ?case by simp
next
  case (Cons e es)
  have r: "prev_call a (map (Reported t k) vs @ obs) = prev_call a obs" for a t k vs obs
    by (induction vs) simp_all
  show ?case
  proof (cases e)
    case (Called t x)
    have "lastCallTime (fst (debounced t x th)) = Some t"
      by (simp add: debounced_def Let_def leadingEdge_def invokeFunc_def)
    with Cons.IH [of "fst (debounced t x th)"] Called show ?thesis
      by (simp add: split_beta r)
  next
    case Cancelled
    with Cons.IH [of "cancel th"] show ?thesis
      by (simp add: split_beta cancel_def)
  next
    case (Expired t)
    have "lastCallTime (fst (timerExpired t th)) = lastCallTime th"
      by (auto simp: timerExpired_def trailingEdge_def invokeFunc_def Let_def
            split: option.splits)
    with Cons.IH [of "fst (timerExpired t th)"] Expired show ?thesis
      by (simp add: split_beta r)
  qed
qed

lemma prev_report_Reported:
  "prev_report a (map (Reported t k) vs @ obs) = prev_report (if vs = [] then a else Some t) obs"
  by (induction vs arbitrary: a) simp_all

lemma prev_report_run:
  assumes "timerId th \<noteq> None \<longrightarrow> lastCallTime th \<noteq> None"
    and "pr = (if lastCallTime th = None then None else Some (lastInvokeTime th))"
  shows "prev_report pr (observe es th) =
           (if lastCallTime (fst (run_wrapper es th)) = None then None
            else Some (lastInvokeTime (fst (run_wrapper es th))))"
  using assms
proof (induction es arbitrary: th pr)
  case Nil
  then show ?case by simp
next
  case (Cons e es)
  show ?case
  proof (cases e)
    case (Called t x)
    let ?th' = "fst (debounced t x th)"
    let ?pr' = "if snd (debounced t x th) = [] then pr else Some t"
    have a: "timerId ?th' \<noteq> None \<longrightarrow> lastCallTime ?th' \<noteq> None"
      by (auto simp: debounced_def Let_def leadingEdge_def invokeFunc_def)
    have b: "?pr' = (if lastCallTime ?th' = None then None else Some (lastInvokeTime ?th'))"
      using Cons.prems
      by (auto simp: debounced_def Let_def leadingEdge_def invokeFunc_def shouldInvoke_def
            split: option.splits if_splits)
    from Cons.IH [OF a b] Called show ?thesis
      by (simp add: split_beta prev_report_Reported)
  next
    case Cancelled
    have "prev_report None (observe es (cancel th)) =
           (if lastCallTime (fst (run_wrapper es (cancel th))) = None then None
            else Some (lastInvokeTime (fst (run_wrapper es (cancel th)))))"
      by (rule Cons.IH) (simp_all add: cancel_def)
    with Cancelled show ?thesis
      by (simp add: split_beta)
  next
    case (Expired t)
    let ?th' = "fst (timerExpired t th)"
    let ?pr' = "if snd (timerExpired t th) = [] then pr else Some t"
    have a: "timerId ?th' \<noteq> None \<longrightarrow> lastCallTime ?th' \<noteq> None"
      using Cons.prems(1)
      by (auto simp: timerExpired_def trailingEdge_def invokeFunc_def Let_def
            split: option.splits if_splits)
    have b: "?pr' = (if lastCallTime ?th' = None then None else Some (lastInvokeTime ?th'))"
      using Cons.prems
      by (auto simp: timerExpired_def trailingEdge_def invokeFunc_def Let_def shouldInvoke_def
            split: option.splits if_splits)
    from Cons.IH [OF a b] Expired show ?thesis
      by (simp add: split_beta prev_report_Reported)
  qed
qed

lemma sorted_readings_from_first:
  "sorted rs \<Longrightarrow> \<forall>t \<in> set rs. (case rs of [] \<Rightarrow> 0 | r # rest \<Rightarrow> r) \<le> (t::int)"
  by (cases rs) auto

section \<open>Properties of the controller\<close>

subsection \<open>The retry budget and the recovery\<close>

text \<open>
  C1. After any sequence of events the recovery counter \<^verbatim>\<open>consecutiveReloadAttempts\<close>
  is at most \<^verbatim>\<open>MAX_RELOAD_ATTEMPTS\<close> = 3. Called with the counter at 3 or more,
  \<^verbatim>\<open>reloadAndResume\<close> leaves every variable as it was and issues no player command
  (it only logs). Hence, from any state the session can reach, a run of events without a
  \<^verbatim>\<open>time\<close> event reloads the item at most 3 times; a \<^verbatim>\<open>time\<close> event puts the
  counter back to 0.
\<close>

theorem reload_attempts_bounded:
  "consecutiveReloadAttempts (fst (run pr evs (initial pl))) \<le> MAX_RELOAD_ATTEMPTS
   \<and> (consecutiveReloadAttempts s \<ge> MAX_RELOAD_ATTEMPTS \<longrightarrow>
        fst (reloadAndResume p s) = s \<and> filter isPlayerCommand (snd (reloadAndResume p s)) = [])
   \<and> ((\<forall>oc \<in> set later. \<not> isTime (snd (snd oc))) \<longrightarrow>
        reloads (snd (run pr later (fst (run pr evs (initial pl))))) \<le> MAX_RELOAD_ATTEMPTS)
   \<and> consecutiveReloadAttempts (fst (onTime p position duration s)) = 0"
proof -
  let ?s = "fst (run pr evs (initial pl))"
  have a: "consecutiveReloadAttempts ?s \<le> MAX_RELOAD_ATTEMPTS"
    using session_inv_reachable [of pr evs pl] by (simp add: session_inv_def)
  have b: "consecutiveReloadAttempts s \<ge> MAX_RELOAD_ATTEMPTS \<longrightarrow>
        fst (reloadAndResume p s) = s \<and> filter isPlayerCommand (snd (reloadAndResume p s)) = []"
    by (simp add: reloadAndResume_def)
  have c: "reloads (snd (run pr later ?s)) \<le> MAX_RELOAD_ATTEMPTS"
    if "\<forall>oc \<in> set later. \<not> isTime (snd (snd oc))"
  proof -
    have "session_inv (fst (run pr later ?s))"
      by (rule session_inv_run) (rule session_inv_reachable)
    then have "consecutiveReloadAttempts (fst (run pr later ?s)) \<le> MAX_RELOAD_ATTEMPTS"
      by (simp add: session_inv_def)
    with attempts_run [OF that, of pr ?s] show ?thesis by simp
  qed
  have d: "consecutiveReloadAttempts (fst (onTime p position duration s)) = 0"
    by (simp add: onTime_def Let_def clearTimeout_def split: option.splits)
  from a b c d show ?thesis by blast
qed

theorem reload_attempts_bounded_witness:
  "fst (reloadAndResume (example_player 0)
          ((initial example_playlist)\<lparr>consecutiveReloadAttempts := 3\<rparr>))
     = (initial example_playlist)\<lparr>consecutiveReloadAttempts := 3\<rparr>
   \<and> reloads (snd (run (example_props None) (replicate 4 (example_player 0, 7, OnError))
                 (fst (run (example_props None) [] (initial example_playlist)))))
       \<le> MAX_RELOAD_ATTEMPTS"
  using reload_attempts_bounded [of "example_props None" "[]" example_playlist
          "(initial example_playlist)\<lparr>consecutiveReloadAttempts := 3\<rparr>" "example_player 0"
          "replicate 4 (example_player 0, 7, OnError)" 1 2]
  by (simp add: MAX_RELOAD_ATTEMPTS_def)

text \<open>
  C4. With the retry budget not exhausted, \<^verbatim>\<open>reloadAndResume\<close> increments the
  counter, cancels the pending throttled report, captures \<^verbatim>\<open>resumeAt\<close> (the last known
  position, 0 when that is 0), loads the item configuration the player returns, unchanged,
  and registers a listener for the next \<^verbatim>\<open>playlistItem\<close> signal; nothing else changes.
  At that signal every registered listener issues \<^verbatim>\<open>play(true)\<close> and is dropped, and
  arms a 250 ms timer for a seek to its \<^verbatim>\<open>resumeAt\<close> exactly when that is positive.
  When such a timer fires the seek is issued, and the closure returns whether the seek
  throws or not.
\<close>

theorem reloadAndResume_recovers:
  "(let resumeAt = lastKnownPosition s;
        s1 = fst (reloadAndResume p s);
        s2 = fst (onPlaylistItem s1);
        armedNow = seekTimers (nextTimer s) (filter (\<lambda>r. 0 < r) (playlistItemOnce s @ [resumeAt]))
    in consecutiveReloadAttempts s < MAX_RELOAD_ATTEMPTS \<longrightarrow>
         s1 = s\<lparr>consecutiveReloadAttempts := consecutiveReloadAttempts s + 1,
                playlistItemOnce := playlistItemOnce s @ [resumeAt]\<rparr>
       \<and> snd (reloadAndResume p s) =
           [ThrottledCancel, Log ''Reloading item to recover. attempt='', LoadCmd [getPlaylistItem p]]
       \<and> snd (onPlaylistItem s1) = replicate (length (playlistItemOnce s) + 1) (PlayCmd True)
       \<and> playlistItemOnce s2 = []
       \<and> timers s2 = timers s @ armedNow
       \<and> ((\<exists>h. (h, 250, SeekAfterReload resumeAt) \<in> set armedNow) \<longleftrightarrow> 0 < resumeAt)
       \<and> (playlistItemOnce s = [] \<longrightarrow>
            armedNow = (if 0 < resumeAt then [(nextTimer s, 250, SeekAfterReload resumeAt)] else [])))
   \<and> (map_of (timers s) h = Some (delay, SeekAfterReload r) \<longrightarrow>
        fireTimer p now h s =
          (Returned, clearTimeout h s,
           [SeekCmd r, Log (if seekThrows p then ''Seek failed after reload'' else ''Sought to'')]))"
proof -
  let ?resumeAt = "lastKnownPosition s"
  let ?s1 = "fst (reloadAndResume p s)"
  let ?armed = "seekTimers (nextTimer s) (filter (\<lambda>r. 0 < r) (playlistItemOnce s @ [?resumeAt]))"
  have fire: "fireTimer p now h s =
          (Returned, clearTimeout h s,
           [SeekCmd r, Log (if seekThrows p then ''Seek failed after reload'' else ''Sought to'')])"
    if "map_of (timers s) h = Some (delay, SeekAfterReload r)"
    using that by (simp add: fireTimer_def seekAfterReload_def player_seek_def)
  have iff: "(\<exists>h. (h, 250, SeekAfterReload ?resumeAt) \<in> set ?armed) \<longleftrightarrow> 0 < ?resumeAt"
  proof
    assume "\<exists>h. (h, 250, SeekAfterReload ?resumeAt) \<in> set ?armed"
    then obtain h where "(h, 250, SeekAfterReload ?resumeAt) \<in> set ?armed" ..
    from seekTimers_mem [OF this] show "0 < ?resumeAt" by (auto split: if_splits)
  next
    assume "0 < ?resumeAt"
    then show "\<exists>h. (h, 250, SeekAfterReload ?resumeAt) \<in> set ?armed"
      by (auto simp: seekTimers_append)
  qed
  have reload: "?s1 = s\<lparr>consecutiveReloadAttempts := consecutiveReloadAttempts s + 1,
                playlistItemOnce := playlistItemOnce s @ [?resumeAt]\<rparr>
       \<and> snd (reloadAndResume p s) =
           [ThrottledCancel, Log ''Reloading item to recover. attempt='', LoadCmd [getPlaylistItem p]]"
    if "consecutiveReloadAttempts s < MAX_RELOAD_ATTEMPTS"
    using that by (simp add: reloadAndResume_def Let_def)
  have item: "snd (onPlaylistItem ?s1) = replicate (length (playlistItemOnce s) + 1) (PlayCmd True)
       \<and> playlistItemOnce (fst (onPlaylistItem ?s1)) = []
       \<and> timers (fst (onPlaylistItem ?s1)) = timers s @ ?armed"
    if "consecutiveReloadAttempts s < MAX_RELOAD_ATTEMPTS"
    using reload [OF that]
    by (simp add: onPlaylistItem_def effects_runListeners timers_runListeners)
  from fire iff reload item show ?thesis
    unfolding Let_def by simp
qed

theorem reloadAndResume_recovers_witness:
  "fst (reloadAndResume (example_player 0) ((initial example_playlist)\<lparr>lastKnownPosition := 58\<rparr>))
     = (initial example_playlist)\<lparr>lastKnownPosition := 58, consecutiveReloadAttempts := 1,
          playlistItemOnce := [58]\<rparr>
   \<and> timers (fst (onPlaylistItem (fst (reloadAndResume (example_player 0)
        ((initial example_playlist)\<lparr>lastKnownPosition := 58\<rparr>)))))
     = [(1, 250, SeekAfterReload 58)]
   \<and> fireTimer ((example_player 0)\<lparr>seekThrows := True\<rparr>) 1000 1
        ((initial example_playlist)\<lparr>timers := [(1, 250, SeekAfterReload 58)]\<rparr>)
     = (Returned, initial example_playlist, [SeekCmd 58, Log ''Seek failed after reload''])"
  using reloadAndResume_recovers [of "(initial example_playlist)\<lparr>lastKnownPosition := 58\<rparr>"
          "example_player 0" 1 250 58 1000]
        reloadAndResume_recovers [of
          "(initial example_playlist)\<lparr>timers := [(1, 250, SeekAfterReload 58)]\<rparr>"
          "(example_player 0)\<lparr>seekThrows := True\<rparr>" 1 250 58 1000]
  by (simp add: Let_def initial_def MAX_RELOAD_ATTEMPTS_def clearTimeout_def example_player_def
        onPlaylistItem_def resumeAfterReload_def setTimeout_def)

subsection \<open>The stall watchdog\<close>

text \<open>
  C2. In any state the session can reach, a \<^verbatim>\<open>buffer\<close> event at clock reading
  \<open>t0\<close> arms a single-shot timer for \<^verbatim>\<open>BUFFER_STALL_MS + 50\<close> ms. If no
  \<^verbatim>\<open>time\<close> event and no further \<^verbatim>\<open>buffer\<close> event arrives before the timer
  fires, and it fires at a clock reading at least \<^verbatim>\<open>BUFFER_STALL_MS\<close> after \<open>t0\<close>,
  the closure calls \<^verbatim>\<open>reloadAndResume\<close> once and clears the handle; the timer is then
  gone, so it cannot fire a second time. If a \<^verbatim>\<open>time\<close> event arrives first, buffering
  is cleared, the timer is cancelled and the handle cleared: nothing fires, and nothing is
  recovered. The closure itself, run when \<^verbatim>\<open>isBuffering\<close> is false, only clears the
  handle.
\<close>

theorem stall_timer_triggers_recovery_once:
  "(let s0 = fst (run pr evs0 (initial pl));
        h = nextTimer s0;
        s1 = fst (onBuffer t0 s0);
        s2 = fst (run pr evs s1)
    in map_of (timers s1) h = Some (BUFFER_STALL_MS + 50, StallCheck)
       \<and> bufferStallCheckTimeout s1 = Some h
       \<and> ((\<forall>oc \<in> set evs. uninterrupted h (snd (snd oc))) \<and> BUFFER_STALL_MS \<le> now - t0 \<longrightarrow>
            fireTimer p now h s2 =
              (Returned,
               (fst (reloadAndResume p (clearTimeout h s2)))\<lparr>bufferStallCheckTimeout := None\<rparr>,
               Log ''buffer stall detected, attempting reload''
                 # snd (reloadAndResume p (clearTimeout h s2)))
          \<and> (let s3 = fst (snd (fireTimer p now h s2))
             in bufferStallCheckTimeout s3 = None \<and> liveStallTimers s3 = []
                \<and> fireTimer p' now' h s3 = (Returned, s3, [])))
       \<and> ((\<forall>oc \<in> set evs. uninterrupted h (snd (snd oc))) \<longrightarrow>
            (let s4 = fst (onTime p position duration s2)
             in \<not> isBuffering s4 \<and> bufferStallCheckTimeout s4 = None \<and> liveStallTimers s4 = []
                \<and> fireTimer p' now' h s4 = (Returned, s4, []))))
   \<and> (\<not> isBuffering s \<longrightarrow>
        bufferStallCheck p now s = (s\<lparr>bufferStallCheckTimeout := None\<rparr>, []))"
proof -
  let ?s0 = "fst (run pr evs0 (initial pl))"
  let ?h = "nextTimer ?s0"
  let ?s1 = "fst (onBuffer t0 ?s0)"
  let ?s2 = "fst (run pr evs ?s1)"
  have inv0: "session_inv ?s0" by (rule session_inv_reachable)
  then have inv1: "session_inv ?s1" by (rule session_inv_onBuffer)
  then have inv2: "session_inv ?s2" by (rule session_inv_run)
  have armed1: "armed ?h t0 ?s1" using inv0 by (rule armed_onBuffer)
  then have a: "map_of (timers ?s1) ?h = Some (BUFFER_STALL_MS + 50, StallCheck)
      \<and> bufferStallCheckTimeout ?s1 = Some ?h"
    by (simp add: armed_def)
  have armed2: "armed ?h t0 ?s2" if "\<forall>oc \<in> set evs. uninterrupted ?h (snd (snd oc))"
    using inv1 armed1 that by (rule armed_run)
  have b: "fireTimer p now ?h ?s2 =
              (Returned,
               (fst (reloadAndResume p (clearTimeout ?h ?s2)))\<lparr>bufferStallCheckTimeout := None\<rparr>,
               Log ''buffer stall detected, attempting reload''
                 # snd (reloadAndResume p (clearTimeout ?h ?s2)))
          \<and> (let s3 = fst (snd (fireTimer p now ?h ?s2))
             in bufferStallCheckTimeout s3 = None \<and> liveStallTimers s3 = []
                \<and> fireTimer p' now' ?h s3 = (Returned, s3, []))"
    if u: "\<forall>oc \<in> set evs. uninterrupted ?h (snd (snd oc))" and late: "BUFFER_STALL_MS \<le> now - t0"
  proof -
    let ?s3 = "(fst (reloadAndResume p (clearTimeout ?h ?s2)))\<lparr>bufferStallCheckTimeout := None\<rparr>"
    have fire: "fireTimer p now ?h ?s2 =
        (Returned, ?s3, Log ''buffer stall detected, attempting reload''
                          # snd (reloadAndResume p (clearTimeout ?h ?s2)))"
      using armed2 [OF u] late by (rule fireTimer_armed)
    have "map_of (timers ?s2) ?h = Some (BUFFER_STALL_MS + 50, StallCheck)"
      using armed2 [OF u] by (simp add: armed_def)
    with inv2 have "liveStallTimers (clearTimeout ?h ?s2) = []"
      by (rule map_of_timers_stall)
    then have none: "liveStallTimers ?s3 = []"
      by (simp add: liveStallTimers_def)
    have "map_of (timers ?s3) ?h = None"
      by (simp add: clearTimeout_def map_of_timers_cleared)
    then have "fireTimer p' now' ?h ?s3 = (Returned, ?s3, [])"
      by (rule fireTimer_not_pending)
    with fire none show ?thesis by (simp add: Let_def)
  qed
  have c: "(let s4 = fst (onTime p position duration ?s2)
             in \<not> isBuffering s4 \<and> bufferStallCheckTimeout s4 = None \<and> liveStallTimers s4 = []
                \<and> fireTimer p' now' ?h s4 = (Returned, s4, []))"
    if u: "\<forall>oc \<in> set evs. uninterrupted ?h (snd (snd oc))"
  proof -
    let ?s4 = "fst (onTime p position duration ?s2)"
    have h: "bufferStallCheckTimeout ?s2 = Some ?h"
      using armed2 [OF u] by (simp add: armed_def)
    have t: "timers ?s4 = filter (\<lambda>t. Some (fst t) \<noteq> bufferStallCheckTimeout ?s2) (timers ?s2)"
      and n: "bufferStallCheckTimeout ?s4 = None"
      using timers_onTime [of p position duration ?s2] by simp_all
    have "liveStallTimers ?s4 = []"
      using session_inv_cancel_stall [OF inv2] t by (simp add: liveStallTimers_def)
    moreover have "map_of (timers ?s4) ?h = None"
      unfolding t h by (simp add: map_of_timers_cleared)
    then have "fireTimer p' now' ?h ?s4 = (Returned, ?s4, [])"
      by (rule fireTimer_not_pending)
    moreover have "\<not> isBuffering ?s4"
      by (simp add: onTime_def Let_def clearTimeout_def split: option.splits)
    ultimately show ?thesis using n by (simp add: Let_def)
  qed
  have d: "\<not> isBuffering s \<longrightarrow>
        bufferStallCheck p now s = (s\<lparr>bufferStallCheckTimeout := None\<rparr>, [])"
    by (simp add: bufferStallCheck_def)
  from a b c d show ?thesis
    unfolding Let_def by blast
qed

theorem stall_timer_triggers_recovery_once_witness:
  "snd (snd (fireTimer (example_player 0) 8000 1
      (fst (run (example_props None) [(example_player 0, 2500, OnVisualQuality)]
         (fst (onBuffer 2000
            (fst (run (example_props None) [(example_player 0, 1000, OnTime 58 60)]
               (initial example_playlist)))))))))
   = [Log ''buffer stall detected, attempting reload'', ThrottledCancel,
      Log ''Reloading item to recover. attempt='', LoadCmd [getPlaylistItem (example_player 0)]]
   \<and> bufferStallCheck (example_player 0) 8000 (initial example_playlist)
     = (initial example_playlist, [])"
proof -
  let ?s0 = "(initial example_playlist)\<lparr>lastKnownPosition := 58, lastKnownDuration := 60\<rparr>"
  let ?s1 = "?s0\<lparr>isBuffering := True, bufferingStartedAt := 2000,
                  bufferStallCheckTimeout := Some 1,
                  timers := [(1, 5050, StallCheck)], nextTimer := 2\<rparr>"
  let ?s2 = "?s1\<lparr>isInitialSeekDone := True\<rparr>"
  have s0: "fst (run (example_props None) [(example_player 0, 1000, OnTime 58 60)]
               (initial example_playlist)) = ?s0"
    by (simp add: dispatch_def onTime_def updateLocalMediaLocation_def item_at_def initial_def
          example_player_def example_playlist_def)
  have s1: "fst (onBuffer 2000 ?s0) = ?s1"
    by (simp add: onBuffer_def setTimeout_def initial_def BUFFER_STALL_MS_def)
  have s2: "fst (run (example_props None) [(example_player 0, 2500, OnVisualQuality)] ?s1) = ?s2"
    by (simp add: dispatch_def onVisualQuality_def item_at_def player_seek_def initial_def
          example_player_def example_playlist_def)
  have h: "nextTimer ?s0 = 1"
    by (simp add: initial_def)
  show ?thesis
    using stall_timer_triggers_recovery_once [of "example_props None"
        "[(example_player 0, 1000, OnTime 58 60)]"
        example_playlist 2000 "[(example_player 0, 2500, OnVisualQuality)]" 8000
        "example_player 0" "example_player 0" 9000 59 60 "initial example_playlist"]
    unfolding s0 h s1 s2 Let_def
    by (simp add: BUFFER_STALL_MS_def initial_def reloadAndResume_def clearTimeout_def
          MAX_RELOAD_ATTEMPTS_def)
qed

text \<open>
  C3. After any sequence of events at most one stall-detection timer is pending. A
  \<^verbatim>\<open>buffer\<close> event cancels the pending one and arms a fresh one, for
  \<^verbatim>\<open>BUFFER_STALL_MS + 50\<close> ms, which becomes the only one and the one the handle
  names; a \<^verbatim>\<open>time\<close> event cancels the pending one and sets the handle to
  \<^verbatim>\<open>null\<close>.
\<close>

theorem at_most_one_stall_timer:
  "length (liveStallTimers (fst (run pr evs (initial pl)))) \<le> 1
   \<and> (let s = fst (run pr evs (initial pl)); s' = fst (onBuffer now s)
      in liveStallTimers s' = [(nextTimer s, BUFFER_STALL_MS + 50, StallCheck)]
         \<and> bufferStallCheckTimeout s' = Some (nextTimer s))
   \<and> (let s = fst (run pr evs (initial pl)); s' = fst (onTime p position duration s)
      in liveStallTimers s' = [] \<and> bufferStallCheckTimeout s' = None)"
proof -
  let ?s = "fst (run pr evs (initial pl))"
  have inv: "session_inv ?s" by (rule session_inv_reachable)
  then have "length (liveStallTimers ?s) \<le> 1"
    by (rule session_inv_one_stall_timer)
  moreover have "liveStallTimers (fst (onBuffer now ?s))
                   = [(nextTimer ?s, BUFFER_STALL_MS + 50, StallCheck)]"
    using session_inv_cancel_stall [OF inv] timers_onBuffer [of now ?s]
    by (simp add: liveStallTimers_def)
  moreover have "liveStallTimers (fst (onTime p position duration ?s)) = []"
    using session_inv_cancel_stall [OF inv] timers_onTime [of p position duration ?s]
    by (simp add: liveStallTimers_def)
  ultimately show ?thesis
    using timers_onBuffer [of now ?s] timers_onTime [of p position duration ?s]
    by (simp add: Let_def)
qed

theorem at_most_one_stall_timer_witness:
  "length (liveStallTimers (fst (run (example_props None)
       [(example_player 0, 100, OnBuffer), (example_player 0, 900, OnBuffer)]
       (initial example_playlist)))) \<le> 1"
  using at_most_one_stall_timer [of "example_props None"
          "[(example_player 0, 100, OnBuffer), (example_player 0, 900, OnBuffer)]"
          example_playlist 0 "example_player 0" 1 2]
  by simp

subsection \<open>The position tracker and the position reports\<close>

text \<open>
  C6. \<^verbatim>\<open>updateLocalMediaLocation(position, duration)\<close>: when the player's index is
  inside the playlist, the initial seek is done and the index is the last played one, the
  item at that index gets the location 0 if \<^verbatim>\<open>position\<close> equals \<^verbatim>\<open>duration\<close>
  and \<^verbatim>\<open>position\<close> otherwise (whether or not it had a location before), and nothing
  else changes. In every other case, an index outside the playlist included, the call
  changes nothing. The function has no failing branch.
\<close>

theorem updateLocalMediaLocation_sets_location:
  "(let i = getPlaylistIndex p; s' = updateLocalMediaLocation p position duration s
    in if 0 \<le> i \<and> i < int (length (playlist s)) \<and> isInitialSeekDone s \<and> lastPlayedId s = Some i
       then item_at (playlist s') i =
              Some ((playlist s ! nat i)
                      \<lparr>latest_media_location := Some (if position = duration then 0 else position)\<rparr>)
          \<and> length (playlist s') = length (playlist s)
          \<and> (\<forall>j. j \<noteq> i \<longrightarrow> item_at (playlist s') j = item_at (playlist s) j)
          \<and> s' = s\<lparr>playlist := playlist s'\<rparr>
       else s' = s)"
  by (auto simp: updateLocalMediaLocation_def item_at_def nat_eq_iff Let_def split: option.splits)

theorem updateLocalMediaLocation_sets_location_witness:
  "item_at (playlist (updateLocalMediaLocation (example_player 0) 60 60
       ((initial example_playlist)\<lparr>isInitialSeekDone := True, lastPlayedId := Some 0\<rparr>))) 0
     = Some ((example_playlist ! 0)\<lparr>latest_media_location := Some 0\<rparr>)
   \<and> item_at (playlist (updateLocalMediaLocation (example_player 0) 31 60
       ((initial example_playlist)\<lparr>isInitialSeekDone := True, lastPlayedId := Some 0\<rparr>))) 0
     = Some ((example_playlist ! 0)\<lparr>latest_media_location := Some 31\<rparr>)
   \<and> updateLocalMediaLocation (example_player 2) 31 60
       ((initial example_playlist)\<lparr>isInitialSeekDone := True, lastPlayedId := Some 2\<rparr>)
     = (initial example_playlist)\<lparr>isInitialSeekDone := True, lastPlayedId := Some 2\<rparr>"
  using updateLocalMediaLocation_sets_location [of "example_player 0" 60 60
          "(initial example_playlist)\<lparr>isInitialSeekDone := True, lastPlayedId := Some 0\<rparr>"]
        updateLocalMediaLocation_sets_location [of "example_player 0" 31 60
          "(initial example_playlist)\<lparr>isInitialSeekDone := True, lastPlayedId := Some 0\<rparr>"]
        updateLocalMediaLocation_sets_location [of "example_player 2" 31 60
          "(initial example_playlist)\<lparr>isInitialSeekDone := True, lastPlayedId := Some 2\<rparr>"]
  by (simp add: initial_def example_player_def example_playlist_def Let_def)

text \<open>
  C9. \<^verbatim>\<open>trackMediaLocation(position)\<close>: without a purchase id nothing is reported.
  With one, and a current item, the report carries the item's \<^verbatim>\<open>content_length\<close>
  when that is known and \<^verbatim>\<open>position\<close> exceeds it, and \<^verbatim>\<open>position\<close> itself
  otherwise. (With a purchase id and no current item the function returns before
  reporting.)
\<close>

theorem trackMediaLocation_reports:
  "(purchase_id pr = None \<longrightarrow> trackMediaLocation pr p position s = [])
   \<and> (purchase_id pr = Some pid \<and> item_at (playlist s) (getPlaylistIndex p) = None \<longrightarrow>
        trackMediaLocation pr p position s = [])
   \<and> (purchase_id pr = Some pid \<and> item_at (playlist s) (getPlaylistIndex p) = Some videoFile
        \<and> content_length videoFile = Some len \<and> position > len \<longrightarrow>
        trackMediaLocation pr p position s =
          [TrackMediaLocationChanged (url_redirect_id pr) (external_id videoFile) pid len])
   \<and> (purchase_id pr = Some pid \<and> item_at (playlist s) (getPlaylistIndex p) = Some videoFile
        \<and> (content_length videoFile = None \<or> content_length videoFile = Some len \<and> position \<le> len) \<longrightarrow>
        trackMediaLocation pr p position s =
          [TrackMediaLocationChanged (url_redirect_id pr) (external_id videoFile) pid position])"
  by (auto simp: trackMediaLocation_def)

theorem trackMediaLocation_reports_witness:
  "trackMediaLocation (example_props None) (example_player 0) 61 (initial example_playlist) = []
   \<and> trackMediaLocation (example_props (Some ''purchase1'')) (example_player 2) 61
        (initial example_playlist) = []
   \<and> trackMediaLocation (example_props (Some ''purchase1'')) (example_player 0) 61
        (initial example_playlist)
       = [TrackMediaLocationChanged ''redirect1'' ''fileA'' ''purchase1'' 60]
   \<and> trackMediaLocation (example_props (Some ''purchase1'')) (example_player 0) 59
        (initial example_playlist)
       = [TrackMediaLocationChanged ''redirect1'' ''fileA'' ''purchase1'' 59]
   \<and> trackMediaLocation (example_props (Some ''purchase1'')) (example_player 1) 61
        (initial example_playlist)
       = [TrackMediaLocationChanged ''redirect1'' ''fileB'' ''purchase1'' 61]"
  using trackMediaLocation_reports [of "example_props None" "example_player 0" 61
          "initial example_playlist" "''purchase1''" "example_playlist ! 0" 60]
        trackMediaLocation_reports [of "example_props (Some ''purchase1'')" "example_player 2" 61
          "initial example_playlist" "''purchase1''" "example_playlist ! 0" 60]
        trackMediaLocation_reports [of "example_props (Some ''purchase1'')" "example_player 0" 61
          "initial example_playlist" "''purchase1''" "example_playlist ! 0" 60]
        trackMediaLocation_reports [of "example_props (Some ''purchase1'')" "example_player 0" 59
          "initial example_playlist" "''purchase1''" "example_playlist ! 0" 60]
        trackMediaLocation_reports [of "example_props (Some ''purchase1'')" "example_player 1" 61
          "initial example_playlist" "''purchase1''" "example_playlist ! 1" 0]
  by (simp add: example_props_def example_player_def example_playlist_def initial_def item_at_def)

subsection \<open>The session tracker\<close>

text \<open>
  C7. The \<^verbatim>\<open>play\<close> handler: when the current item exists and is not the one
  played last, the watch event is sent, \<^verbatim>\<open>lastPlayedId\<close> becomes its index and
  \<^verbatim>\<open>isInitialSeekDone\<close> is reset; when it is the one played last (or does not
  exist) nothing is sent and nothing changes. Over any sequence of events from the start of
  the session, the watch events sent are exactly those of the items started by
  \<^verbatim>\<open>play\<close> events with immediate repetitions of an item dropped: one per activation.
\<close>

theorem watch_event_once_per_activation:
  "(let i = getPlaylistIndex p
    in (item_at (playlist s) i = Some videoFile \<and> lastPlayedId s \<noteq> Some i \<longrightarrow>
          onPlay pr p s =
            (s\<lparr>lastPlayedId := Some i, isInitialSeekDone := False\<rparr>,
             [CreateConsumptionEvent ''watch'' (url_redirect_id pr) (external_id videoFile)
                (purchase_id pr)]))
     \<and> (item_at (playlist s) i = None \<or> lastPlayedId s = Some i \<longrightarrow> onPlay pr p s = (s, [])))
   \<and> filter isWatch (snd (run pr evs (initial pl))) =
       map (\<lambda>i. CreateConsumptionEvent ''watch'' (url_redirect_id pr) (external_id (pl ! nat i))
                  (purchase_id pr))
         (remdups_adj (playedItems (length pl) evs))"
proof -
  have "filter isWatch (snd (run pr evs (initial pl))) =
          map (watchEvent pr (map external_id pl)) (remdups_adj (playedItems (length pl) evs))"
    using watch_run [of pr evs "initial pl"]
    by (simp add: activations_remdups_adj) (simp add: initial_def)
  also have "\<dots> = map (\<lambda>i. CreateConsumptionEvent ''watch'' (url_redirect_id pr)
                          (external_id (pl ! nat i)) (purchase_id pr))
                     (remdups_adj (playedItems (length pl) evs))"
    by (rule map_cong) (auto simp: watchEvent_def dest!: playedItems_in_range)
  finally show ?thesis
    by (auto simp: onPlay_def Let_def split: option.splits)
qed

theorem watch_event_once_per_activation_witness:
  "filter isWatch (snd (run (example_props None)
      [(example_player 0, 0, OnPlay), (example_player 0, 5, OnSeek 30), (example_player 0, 6, OnPlay),
       (example_player 1, 70, OnPlay), (example_player 1, 80, OnPlay), (example_player 2, 90, OnPlay)]
      (initial example_playlist)))
   = [CreateConsumptionEvent ''watch'' ''redirect1'' ''fileA'' None,
      CreateConsumptionEvent ''watch'' ''redirect1'' ''fileB'' None]
   \<and> onPlay (example_props None) (example_player 0)
       ((initial example_playlist)\<lparr>lastPlayedId := Some 0, isInitialSeekDone := True\<rparr>)
     = ((initial example_playlist)\<lparr>lastPlayedId := Some 0, isInitialSeekDone := True\<rparr>, [])"
  using watch_event_once_per_activation [of "example_player 0"
      "(initial example_playlist)\<lparr>lastPlayedId := Some 0, isInitialSeekDone := True\<rparr>"
      "example_playlist ! 0" "example_props None"
      "[(example_player 0, 0, OnPlay), (example_player 0, 5, OnSeek 30), (example_player 0, 6, OnPlay),
       (example_player 1, 70, OnPlay), (example_player 1, 80, OnPlay), (example_player 2, 90, OnPlay)]"
      example_playlist]
  by (simp add: example_props_def example_player_def example_playlist_def Let_def)

text \<open>
  C8, as it is stated, fails. The handler returns early only when
  \<^verbatim>\<open>isInitialSeekDone\<close> is true and \<^verbatim>\<open>lastPlayedId\<close> is the player's current
  index. Before any \<^verbatim>\<open>play\<close> event \<^verbatim>\<open>lastPlayedId\<close> is undefined: three
  \<^verbatim>\<open>visualQuality\<close> signals at the start of a session issue three seeks, although
  the flag is true after the first. And after a \<^verbatim>\<open>play\<close> event, a signal whose seek
  throws leaves the flag false, so the next signal of the same activation seeks again.
\<close>

theorem initial_seek_repeated_before_play:
  "snd (run (example_props None)
          [(example_player 0, 0, OnVisualQuality), (example_player 0, 1, OnVisualQuality),
           (example_player 0, 2, OnVisualQuality)]
          (initial example_playlist))
     = [SeekCmd 20, SeekCmd 20, SeekCmd 20]
   \<and> isInitialSeekDone (fst (run (example_props None) [(example_player 0, 0, OnVisualQuality)]
                              (initial example_playlist)))
   \<and> snd (run (example_props None)
          [(example_player 0, 0, OnPlay),
           ((example_player 0)\<lparr>seekThrows := True\<rparr>, 1, OnVisualQuality),
           (example_player 0, 2, OnVisualQuality)]
          (initial example_playlist))
     = [CreateConsumptionEvent ''watch'' ''redirect1'' ''fileA'' None, SeekCmd 20, SeekCmd 20]"
  by (simp add: dispatch_def onVisualQuality_def onPlay_def item_at_def player_seek_def
        initial_def example_player_def example_playlist_def example_props_def Let_def)

text \<open>
  C8, amended. The \<^verbatim>\<open>visualQuality\<close> handler. Unless \<^verbatim>\<open>isInitialSeekDone\<close> is
  true and the last played index is the player's current one, a signal issues exactly one
  seek, to the recorded location of the current item, when the item has one that differs
  from its \<^verbatim>\<open>content_length\<close>, and none when there is no item, no recorded location,
  or a location equal to \<^verbatim>\<open>content_length\<close>; this holds before the item's
  \<^verbatim>\<open>play\<close> event too, where every signal seeks again. When the handler returns,
  \<^verbatim>\<open>isInitialSeekDone\<close> is true and nothing else has changed, whether or not a seek
  was issued. Once it has returned with the last played index equal to the current one, a
  \<^verbatim>\<open>visualQuality\<close> signal issues nothing and changes nothing for as long as the
  player stays on that item.
\<close>

theorem initial_seek_applied_once:
  "(let i = getPlaylistIndex p;
        out = fst (onVisualQuality p s);
        s' = fst (snd (onVisualQuality p s));
        e = snd (snd (onVisualQuality p s))
    in (\<not> (isInitialSeekDone s \<and> lastPlayedId s = Some i)
          \<and> item_at (playlist s) i = Some videoFile
          \<and> latest_media_location videoFile = Some location
          \<and> Some location \<noteq> content_length videoFile \<longrightarrow> e = [SeekCmd location])
     \<and> (\<not> (isInitialSeekDone s \<and> lastPlayedId s = Some i)
          \<and> (item_at (playlist s) i = None
              \<or> item_at (playlist s) i = Some videoFile
                \<and> (latest_media_location videoFile = None
                    \<or> latest_media_location videoFile = content_length videoFile)) \<longrightarrow>
          e = [] \<and> out = Returned)
     \<and> (isInitialSeekDone s \<and> lastPlayedId s = Some i \<longrightarrow> e = [] \<and> out = Returned \<and> s' = s)
     \<and> (out = Returned \<longrightarrow> s' = s\<lparr>isInitialSeekDone := True\<rparr>)
     \<and> (out = Returned \<and> lastPlayedId s = Some i
          \<and> (\<forall>oc \<in> set evs. getPlaylistIndex (fst oc) = i) \<and> getPlaylistIndex p' = i \<longrightarrow>
          onVisualQuality p' (fst (run pr evs s')) = (Returned, fst (run pr evs s'), [])))"
proof -
  let ?i = "getPlaylistIndex p"
  let ?r = "onVisualQuality p s"
  have later: "onVisualQuality p' (fst (run pr evs (fst (snd ?r)))) =
                 (Returned, fst (run pr evs (fst (snd ?r))), [])"
    if "fst ?r = Returned" "lastPlayedId s = Some ?i"
       "\<forall>oc \<in> set evs. getPlaylistIndex (fst oc) = ?i" "getPlaylistIndex p' = ?i"
  proof -
    from that(1) have "isInitialSeekDone (fst (snd ?r))"
      by (auto simp: onVisualQuality_def Let_def player_seek_def
            split: option.splits if_splits)
    moreover from that(2) have "lastPlayedId (fst (snd ?r)) = Some ?i"
      by (auto simp: onVisualQuality_def Let_def player_seek_def split: option.splits)
    ultimately have "isInitialSeekDone (fst (run pr evs (fst (snd ?r))))
        \<and> lastPlayedId (fst (run pr evs (fst (snd ?r)))) = Some ?i"
      using that(3) by (intro seek_done_run)
    with that(4) show ?thesis
      by (simp add: onVisualQuality_def)
  qed
  have step: "(\<not> (isInitialSeekDone s \<and> lastPlayedId s = Some ?i)
          \<and> item_at (playlist s) ?i = Some videoFile
          \<and> latest_media_location videoFile = Some location
          \<and> Some location \<noteq> content_length videoFile \<longrightarrow> snd (snd ?r) = [SeekCmd location])
     \<and> (\<not> (isInitialSeekDone s \<and> lastPlayedId s = Some ?i)
          \<and> (item_at (playlist s) ?i = None
              \<or> item_at (playlist s) ?i = Some videoFile
                \<and> (latest_media_location videoFile = None
                    \<or> latest_media_location videoFile = content_length videoFile)) \<longrightarrow>
          snd (snd ?r) = [] \<and> fst ?r = Returned)
     \<and> (isInitialSeekDone s \<and> lastPlayedId s = Some ?i \<longrightarrow>
          snd (snd ?r) = [] \<and> fst ?r = Returned \<and> fst (snd ?r) = s)
     \<and> (fst ?r = Returned \<longrightarrow> fst (snd ?r) = s\<lparr>isInitialSeekDone := True\<rparr>)"
    by (auto simp: onVisualQuality_def Let_def player_seek_def split: option.splits)
  from step later show ?thesis
    unfolding Let_def by blast
qed

theorem initial_seek_applied_once_witness:
  "onVisualQuality (example_player 0) ((initial example_playlist)\<lparr>lastPlayedId := Some 0\<rparr>)
     = (Returned, (initial example_playlist)\<lparr>lastPlayedId := Some 0, isInitialSeekDone := True\<rparr>,
        [SeekCmd 20])
   \<and> onVisualQuality (example_player 0)
        (fst (run (example_props None)
           [(example_player 0, 10, OnTime 21 60), (example_player 0, 11, OnVisualQuality)]
           ((initial example_playlist)\<lparr>lastPlayedId := Some 0, isInitialSeekDone := True\<rparr>)))
     = (Returned,
        fst (run (example_props None)
           [(example_player 0, 10, OnTime 21 60), (example_player 0, 11, OnVisualQuality)]
           ((initial example_playlist)\<lparr>lastPlayedId := Some 0, isInitialSeekDone := True\<rparr>)),
        [])"
proof -
  have 1: "onVisualQuality (example_player 0) ((initial example_playlist)\<lparr>lastPlayedId := Some 0\<rparr>)
     = (Returned, (initial example_playlist)\<lparr>lastPlayedId := Some 0, isInitialSeekDone := True\<rparr>,
        [SeekCmd 20])"
    by (simp add: onVisualQuality_def initial_def example_player_def example_playlist_def
          item_at_def player_seek_def)
  show ?thesis
    using initial_seek_applied_once [of "example_player 0"
        "(initial example_playlist)\<lparr>lastPlayedId := Some 0\<rparr>" "example_playlist ! 0" 20
        "[(example_player 0, 10, OnTime 21 60), (example_player 0, 11, OnVisualQuality)]"
        "example_player 0" "example_props None"]
    unfolding 1 Let_def
    by (simp add: example_player_def initial_def)
qed

text \<open>
  C10. The watch event does not depend on the purchase id: when a new item starts playing
  and \<^verbatim>\<open>purchase_id\<close> is \<^verbatim>\<open>null\<close>, the \<^verbatim>\<open>play\<close> handler still sends
  \<^verbatim>\<open>createConsumptionEvent\<close>, with \<^verbatim>\<open>purchaseId = null\<close>, sets
  \<^verbatim>\<open>lastPlayedId\<close> and resets \<^verbatim>\<open>isInitialSeekDone\<close>; position reports are
  suppressed, by \<^verbatim>\<open>trackMediaLocation\<close> and so over any run of events.
\<close>

theorem watch_event_sent_for_anonymous_playback:
  "purchase_id pr = None \<and> item_at (playlist s) (getPlaylistIndex p) = Some videoFile
     \<and> lastPlayedId s \<noteq> Some (getPlaylistIndex p) \<longrightarrow>
   onPlay pr p s =
     (s\<lparr>lastPlayedId := Some (getPlaylistIndex p), isInitialSeekDone := False\<rparr>,
      [CreateConsumptionEvent ''watch'' (url_redirect_id pr) (external_id videoFile) None])
   \<and> trackMediaLocation pr p position s = []
   \<and> filter isReport (snd (run pr evs s)) = []"
  using reports_run_anonymous [of pr evs s]
  by (simp add: onPlay_def trackMediaLocation_def)

theorem watch_event_sent_for_anonymous_playback_witness:
  "onPlay (example_props None) (example_player 1) (initial example_playlist) =
     ((initial example_playlist)\<lparr>lastPlayedId := Some 1, isInitialSeekDone := False\<rparr>,
      [CreateConsumptionEvent ''watch'' ''redirect1'' ''fileB'' None])
   \<and> trackMediaLocation (example_props None) (example_player 1) 5 (initial example_playlist) = []
   \<and> filter isReport (snd (run (example_props None)
        [(example_player 1, 0, OnPlay), (example_player 1, 9, OnSeek 5), (example_player 1, 20, OnComplete)]
        (initial example_playlist))) = []"
  using watch_event_sent_for_anonymous_playback [of "example_props None" "initial example_playlist"
          "example_player 1" "example_playlist ! 1" 5
          "[(example_player 1, 0, OnPlay), (example_player 1, 9, OnSeek 5), (example_player 1, 20, OnComplete)]"]
  by (simp add: example_props_def example_player_def example_playlist_def initial_def item_at_def)

subsection \<open>The throttled reporter\<close>

text \<open>
  C5, as it is stated, fails: the wrapper reports on the leading edge too. The first
  \<^verbatim>\<open>time\<close> event of a session passes its position to the wrapper, which invokes
  \<^verbatim>\<open>trackMediaLocation\<close> at once; a recovery 100 ms later cancels the wrapper, and
  the window has had one report, not none. A burst of three calls within one window sends
  two reports, the first call's and the last call's. And a call that comes 500 ms after a
  trailing report, but more than 10000 ms after the call before it, is reported at once:
  two reports within 500 ms.
\<close>

theorem throttled_reporter_not_trailing_only:
  "snd (run_wrapper
          (wrapper_events 1000 (snd (onTime (example_player 0) 5 60 (initial example_playlist)))
           @ wrapper_events 1100 (snd (onError (example_player 0)
                 (fst (onTime (example_player 0) 5 60 (initial example_playlist)))))
           @ [Expired 11000])
          new_throttled) = [Some 5]
   \<and> snd (run_wrapper [Called 1000 5, Called 1100 6, Called 1200 7, Expired 11000] new_throttled)
       = [Some 5, Some 7]
   \<and> observe [Called 1000 5, Called 1200 7, Expired 11000, Called 11500 9] new_throttled
       = [CallMade 1000 5, Reported 1000 AtCall (Some 5), CallMade 1200 7,
          Reported 11000 AtExpiry (Some 7), CallMade 11500 9, Reported 11500 AtCall (Some 9)]"
  by (simp add: onTime_def onError_def reloadAndResume_def updateLocalMediaLocation_def
        item_at_def initial_def Let_def example_player_def MAX_RELOAD_ATTEMPTS_def
        debounced_def cancel_def timerExpired_def shouldInvoke_def leadingEdge_def
        trailingEdge_def invokeFunc_def new_throttled_def LOCATION_TRACK_EVENT_DELAY_MS_def)

text \<open>
  C5, amended. For every sequence of calls, cancels and timer expiries of the throttled
  position reporter. A call is reported at once exactly when \<^verbatim>\<open>shouldInvoke\<close> holds:
  it is the first call since the wrapper was created or cancelled, or its clock reading is
  at least \<^verbatim>\<open>LOCATION_TRACK_EVENT_DELAY_MS\<close> = 10000 ms after that of the previous call
  (or before it), or at least 10000 ms after that of the previous report. Any other call is
  held, with the timer pending; when the timer expires at such a reading the held call is
  the one sent (\<^verbatim>\<open>lastCallTime\<close> and \<^verbatim>\<open>lastInvokeTime\<close> are the readings of the
  previous call and of the previous report). Every report carries the position of the
  most recent call, and no call is reported twice. When the clock readings do not
  decrease, between cancels a report made at the expiry of the timer comes at least
  10000 ms after the previous report, and a report made by a call at least 10000 ms
  after the previous report made by a call. A
  cancel leaves the wrapper as new: the held call and the timer are discarded, so the
  window has no trailing report and nothing is reported before the next call; a report
  already made on the leading edge stands.
\<close>

theorem throttled_reporter_rate_limited:
  "snd (debounced t x th) = (if shouldInvoke t th then [Some x] else [])
   \<and> snd (debounced t x new_throttled) = [Some x]
   \<and> (\<not> shouldInvoke t th \<longrightarrow>
        lastArgs (fst (debounced t x th)) = Some x \<and> timerId (fst (debounced t x th)) \<noteq> None)
   \<and> snd (timerExpired t th) =
       (if timerId th \<noteq> None \<and> shouldInvoke t th
        then (case lastArgs th of Some v \<Rightarrow> [Some v] | None \<Rightarrow> []) else [])
   \<and> cancel th = new_throttled
   \<and> timerExpired t new_throttled = (new_throttled, [])
   \<and> sends_latest None (observe es new_throttled)
   \<and> prev_call None (observe es new_throttled) = lastCallTime (fst (run_wrapper es new_throttled))
   \<and> prev_report None (observe es new_throttled)
       = (if lastCallTime (fst (run_wrapper es new_throttled)) = None then None
          else Some (lastInvokeTime (fst (run_wrapper es new_throttled))))
   \<and> (sorted (readings es) \<longrightarrow> rate_limited None None (observe es new_throttled))"
proof -
  let ?now = "case readings es of [] \<Rightarrow> 0 | r # rest \<Rightarrow> r"
  have first: "snd (debounced t x new_throttled) = [Some x]"
    by (simp add: reports_debounced shouldInvoke_def new_throttled_def)
  have gone: "timerExpired t new_throttled = (new_throttled, [])"
    by (simp add: timerExpired_def new_throttled_def)
  have latest: "sends_latest None (observe es new_throttled)"
    using sends_latest_observe [of new_throttled es] by (simp add: new_throttled_def)
  have calls: "prev_call None (observe es new_throttled)
                 = lastCallTime (fst (run_wrapper es new_throttled))"
    using prev_call_observe [of es new_throttled] by (simp add: new_throttled_def)
  have reports: "prev_report None (observe es new_throttled)
       = (if lastCallTime (fst (run_wrapper es new_throttled)) = None then None
          else Some (lastInvokeTime (fst (run_wrapper es new_throttled))))"
    by (rule prev_report_run) (simp_all add: new_throttled_def)
  have rate: "rate_limited None None (observe es new_throttled)"
    if s: "sorted (readings es)"
  proof -
    have tr: "wrapper_inv new_throttled ?now None None" by (rule wrapper_inv_new)
    have l: "\<forall>t \<in> set (readings es). ?now \<le> t"
      using s by (rule sorted_readings_from_first)
    from tr s l show ?thesis by (rule rate_limited_observe)
  qed
  from first gone latest calls reports rate show ?thesis
    by (simp add: reports_debounced held_debounced reports_timerExpired cancel_new)
qed

theorem throttled_reporter_rate_limited_witness:
  "rate_limited None None
     (observe [Called 1000 5, Called 1200 7, Expired 11000, Called 11500 9, Called 11600 10,
               Cancelled, Expired 21500, Called 21600 11] new_throttled)
   \<and> sends_latest None
     (observe [Called 1000 5, Called 1200 7, Expired 11000, Called 11500 9, Called 11600 10,
               Cancelled, Expired 21500, Called 21600 11] new_throttled)
   \<and> lastArgs (fst (debounced 1200 7 (fst (debounced 1000 5 new_throttled)))) = Some 7
   \<and> snd (debounced 1200 7 (fst (debounced 1000 5 new_throttled))) = []
   \<and> snd (timerExpired 11000 (fst (debounced 1200 7 (fst (debounced 1000 5 new_throttled)))))
       = [Some 7]"
proof -
  let ?th1 = "\<lparr>lastArgs = None, timerId = Some 10000, lastCallTime = Some 1000,
               lastInvokeTime = 1000\<rparr>"
  let ?th2 = "\<lparr>lastArgs = Some 7, timerId = Some 10000, lastCallTime = Some 1200,
               lastInvokeTime = 1000\<rparr>"
  have 1: "fst (debounced 1000 5 new_throttled) = ?th1"
    by (simp add: debounced_def shouldInvoke_def leadingEdge_def invokeFunc_def
          new_throttled_def LOCATION_TRACK_EVENT_DELAY_MS_def)
  have 2: "fst (debounced 1200 7 ?th1) = ?th2"
    by (simp add: debounced_def shouldInvoke_def LOCATION_TRACK_EVENT_DELAY_MS_def)
  show ?thesis
    using throttled_reporter_rate_limited [of 1200 7 ?th1
        "[Called 1000 5, Called 1200 7, Expired 11000, Called 11500 9, Called 11600 10,
          Cancelled, Expired 21500, Called 21600 11]"]
      throttled_reporter_rate_limited [of 11000 7 ?th2 "[]"]
    unfolding 1 2
    by (simp add: shouldInvoke_def LOCATION_TRACK_EVENT_DELAY_MS_def)
qed

end
